theory Spec2Isabelle
  imports Main
begin

section \<open>Text primitives of the Python runtime\<close>

text \<open>
  Python text is modelled as \<^typ>\<open>string\<close>. The model covers ASCII text, where one
  \<^typ>\<open>char\<close> is one code point, so \<open>length\<close> is Python's \<open>len\<close>; a character
  outside ASCII is an opaque symbol (no space, no digit, no case).

  \<open>is_space\<close> is \<open>str.isspace\<close> on one character, which is also the class \<open>\s\<close> of
  \<open>re\<close>: tab, line feed, vertical tab, form feed, carriage return, the four
  separators 0x1C to 0x1F and the blank.
\<close>

definition whitespace :: "char list" where
  "whitespace = [CHR 0x09, CHR 0x0A, CHR 0x0B, CHR 0x0C, CHR 0x0D,
                 CHR 0x1C, CHR 0x1D, CHR 0x1E, CHR 0x1F, CHR 0x20]"

definition is_space :: "char \<Rightarrow> bool" where
  "is_space c \<longleftrightarrow> c \<in> set whitespace"

text \<open>The class \<open>\d\<close> of \<open>re\<close>.\<close>

definition is_digit :: "char \<Rightarrow> bool" where
  "is_digit c \<longleftrightarrow> c \<in> set ''0123456789''"

text \<open>\<open>str.strip()\<close>: drop the white space at both ends.\<close>

definition strip :: "string \<Rightarrow> string" where
  "strip s = rev (dropWhile is_space (rev (dropWhile is_space s)))"

text \<open>\<open>str.upper()\<close> and \<open>str.lower()\<close>.\<close>

definition upper_char :: "char \<Rightarrow> char" where
  "upper_char c =
     (let n = (of_char c :: nat) in if 97 \<le> n \<and> n \<le> 122 then char_of (n - 32) else c)"

definition lower_char :: "char \<Rightarrow> char" where
  "lower_char c =
     (let n = (of_char c :: nat) in if 65 \<le> n \<and> n \<le> 90 then char_of (n + 32) else c)"

definition upper :: "string \<Rightarrow> string" where
  "upper s = map upper_char s"

definition lower :: "string \<Rightarrow> string" where
  "lower s = map lower_char s"

text \<open>\<open>re.sub(r"\s+", " ", s)\<close>: every maximal run of white space becomes one blank.\<close>

function collapse_ws :: "string \<Rightarrow> string" where
  "collapse_ws [] = []"
| "collapse_ws (c # cs) =
     (if is_space c then CHR 0x20 # collapse_ws (dropWhile is_space cs)
      else c # collapse_ws cs)"
  by pat_completeness auto
termination
  by (relation "measure length") (auto simp: length_dropWhile_le less_Suc_eq_le)

text \<open>
  \<open>re.sub(r"\.0$", "", s)\<close>: \<open>$\<close> matches at the end of the text and also just before
  a line feed that ends it, so the match is a final \<open>.0\<close>, or the \<open>.0\<close> before a final
  line feed (which stays).
\<close>

definition ends_with :: "string \<Rightarrow> string \<Rightarrow> bool" where
  "ends_with s t \<longleftrightarrow> length t \<le> length s \<and> drop (length s - length t) s = t"

definition sub_dot0 :: "string \<Rightarrow> string" where
  "sub_dot0 s =
     (if ends_with s ''.0'' then take (length s - 2) s
      else if ends_with s [CHR ''.'', CHR ''0'', CHR 0x0A] then take (length s - 3) s @ [CHR 0x0A]
      else s)"

text \<open>\<open>re.sub(r"[^\d]", "", s)\<close>: keep the digits.\<close>

definition digits_only :: "string \<Rightarrow> string" where
  "digits_only s = filter is_digit s"

text \<open>
  \<open>str.zfill(width)\<close>: pad with zeros on the left up to the width, after a leading
  sign if there is one.
\<close>

definition zfill :: "nat \<Rightarrow> string \<Rightarrow> string" where
  "zfill width s =
     (if width \<le> length s then s
      else (case s of
              c # cs \<Rightarrow>
                if c = CHR ''+'' \<or> c = CHR ''-''
                then c # replicate (width - length s) CHR ''0'' @ cs
                else replicate (width - length s) CHR ''0'' @ s
            | [] \<Rightarrow> replicate width CHR ''0''))"

text \<open>\<open>str(n)\<close> of an integer: its decimal digits, with a minus sign below zero.\<close>

definition digit_char :: "nat \<Rightarrow> char" where
  "digit_char d = ''0123456789'' ! d"

function str_nat :: "nat \<Rightarrow> string" where
  "str_nat n = (if n < 10 then [digit_char n] else str_nat (n div 10) @ [digit_char (n mod 10)])"
  by pat_completeness auto
termination
  by (relation "measure id") auto

declare str_nat.simps [simp del]

definition str_int :: "int \<Rightarrow> string" where
  "str_int i = (if i < 0 then CHR ''-'' # str_nat (nat (- i)) else str_nat (nat i))"

section \<open>Cell values and the value normalizers (script2.py)\<close>

text \<open>
  A cell of the table as \<open>safe_text\<close> tells the kinds apart. A float is given by what
  the code asks of it: whether it is not-a-number, whether \<open>is_integer()\<close> holds and
  then the value of \<open>int(x)\<close>, and its default text \<open>str(x)\<close>.
\<close>

datatype pyfloat =
    FNan
  | FWhole int string
  | FFrac string

datatype cell =
    CNone
  | CNA
  | CInt int
  | CFloat pyfloat
  | CStr string

text \<open>\<open>pd.isna(x)\<close> on a scalar.\<close>

fun isna :: "cell \<Rightarrow> bool" where
  "isna CNone = True"
| "isna CNA = True"
| "isna (CFloat FNan) = True"
| "isna _ = False"

text \<open>The default conversion \<open>str(x)\<close>.\<close>

fun py_str :: "cell \<Rightarrow> string" where
  "py_str CNone = ''None''"
| "py_str CNA = ''<NA>''"
| "py_str (CInt i) = str_int i"
| "py_str (CFloat FNan) = ''nan''"
| "py_str (CFloat (FWhole i r)) = r"
| "py_str (CFloat (FFrac r)) = r"
| "py_str (CStr s) = s"

fun safe_text :: "cell \<Rightarrow> string" where
  "safe_text CNone = ''''"
| "safe_text x =
     (if isna x then ''''
      else (case x of
              CInt i \<Rightarrow> str_int i
            | CFloat FNan \<Rightarrow> ''''
            | CFloat (FWhole i r) \<Rightarrow> str_int i
            | CFloat (FFrac r) \<Rightarrow> r
            | _ \<Rightarrow> py_str x))"

definition clean_house :: "cell \<Rightarrow> string" where
  "clean_house x = (let s = strip (safe_text x); s = sub_dot0 s; s = collapse_ws s in s)"

definition clean_street :: "cell \<Rightarrow> string" where
  "clean_street x = (let s = upper (strip (safe_text x)); s = collapse_ws s in s)"

definition clean_zip :: "cell \<Rightarrow> string" where
  "clean_zip x =
     (let s = strip (safe_text x);
          s = digits_only s;
          s = (if length s = 4 then zfill 5 s else s);
          s = (if length s \<ge> 5 then take 5 s else s)
      in s)"

section \<open>Column Resolver (script2.py)\<close>

text \<open>
  \<open>re.sub(r"\(.*?\)", "", s)\<close>: from each opening parenthesis, the shortest stretch up
  to a closing one is dropped; the dot of the pattern does not match a line feed, so a
  line feed before the closing parenthesis leaves the opening one in place.
\<close>

function drop_parens :: "string \<Rightarrow> string" where
  "drop_parens [] = []"
| "drop_parens (c # cs) =
     (if c = CHR ''(''
      then (case dropWhile (\<lambda>d. d \<noteq> CHR '')'' \<and> d \<noteq> CHR 0x0A) cs of
              d # ds \<Rightarrow> if d = CHR '')'' then drop_parens ds else c # drop_parens cs
            | [] \<Rightarrow> c # drop_parens cs)
      else c # drop_parens cs)"
  by pat_completeness auto
termination
proof (relation "measure length", goal_cases)
  case 1
  show ?case by simp
next
  case (2 c cs)
  show ?case by simp
next
  case (3 c cs d ds)
  have "length (dropWhile (\<lambda>d. d \<noteq> CHR '')'' \<and> d \<noteq> CHR 0x0A) cs) \<le> length cs"
    by (rule length_dropWhile_le)
  with 3 show ?case by simp
next
  case (4 c cs d ds)
  show ?case by simp
next
  case (5 c cs)
  show ?case by simp
qed

definition norm_keep_symbols :: "string \<Rightarrow> string" where
  "norm_keep_symbols s =
     (let s = lower (strip (collapse_ws s));
          s = drop_parens s;
          s = map (\<lambda>c. if c = CHR ''/'' then CHR 0x20 else c) s
      in s)"

text \<open>
  The headers \<open>df.columns\<close> are a list of texts, in the order of the table; \<open>None\<close>
  is the result \<open>None\<close> of the source.
\<close>

definition find_exact :: "string list \<Rightarrow> string list \<Rightarrow> string option" where
  "find_exact columns names =
     (let target = set (map (\<lambda>n. lower (strip n)) names)
      in find (\<lambda>col. lower (strip col) \<in> target) columns)"

text \<open>
  A pattern of the Header Pattern Table is taken by what \<open>find_regex\<close> asks of it:
  whether \<open>re.search(pat, c)\<close> finds a match in the normalized header.
\<close>

type_synonym pattern = "string \<Rightarrow> bool"

type_synonym key = "nat \<times> int"

text \<open>Python's \<open><\<close> on the pairs \<open>(rank, -len(c))\<close>.\<close>

definition key_less :: "key \<Rightarrow> key \<Rightarrow> bool" where
  "key_less a b \<longleftrightarrow> fst a < fst b \<or> (fst a = fst b \<and> snd a < snd b)"

text \<open>The inner loop over \<open>enumerate(patterns)\<close>, left at the first match.\<close>

fun scan_patterns ::
  "pattern list \<Rightarrow> nat \<Rightarrow> string \<Rightarrow> string \<Rightarrow> (key \<times> string) option \<Rightarrow> (key \<times> string) option"
where
  "scan_patterns [] rank c col best = best"
| "scan_patterns (pat # pats) rank c col best =
     (if pat c
      then (case best of
              None \<Rightarrow> Some ((rank, - int (length c)), col)
            | Some b \<Rightarrow>
                if key_less (rank, - int (length c)) (fst b)
                then Some ((rank, - int (length c)), col)
                else best)
      else scan_patterns pats (Suc rank) c col best)"

text \<open>The outer loop over \<open>df.columns\<close>.\<close>

fun scan_columns ::
  "string list \<Rightarrow> pattern list \<Rightarrow> (key \<times> string) option \<Rightarrow> (key \<times> string) option"
where
  "scan_columns [] patterns best = best"
| "scan_columns (col # cols) patterns best =
     scan_columns cols patterns (scan_patterns patterns 0 (norm_keep_symbols col) col best)"

definition find_regex :: "string list \<Rightarrow> pattern list \<Rightarrow> string option" where
  "find_regex columns patterns =
     (case scan_columns columns patterns None of None \<Rightarrow> None | Some b \<Rightarrow> Some (snd b))"

text \<open>
  Column detection, \<open>find_exact(df, names) or find_regex(df, patterns)\<close>: Python's
  \<open>or\<close> takes the second operand when the first is \<open>None\<close> or the empty text.
\<close>

definition detect_column :: "string list \<Rightarrow> string list \<Rightarrow> pattern list \<Rightarrow> string option" where
  "detect_column columns names patterns =
     (case find_exact columns names of
        Some col \<Rightarrow> if col \<noteq> [] then Some col else find_regex columns patterns
      | None \<Rightarrow> find_regex columns patterns)"

text \<open>
  The words of the specification for the fallback pass: a header/pattern pair matches
  when the pattern of that rank finds a match in the normalized header, and its key is
  (rank, negative length of the normalized header).
\<close>

definition matching :: "pattern list \<Rightarrow> string \<Rightarrow> nat \<Rightarrow> bool" where
  "matching patterns col rank \<longleftrightarrow>
     rank < length patterns \<and> (patterns ! rank) (norm_keep_symbols col)"

definition pair_key :: "string \<Rightarrow> nat \<Rightarrow> key" where
  "pair_key col rank = (rank, - int (length (norm_keep_symbols col)))"

definition key_le :: "key \<Rightarrow> key \<Rightarrow> bool" where
  "key_le a b \<longleftrightarrow> \<not> key_less b a"

text \<open>
  The words of the specification for the exact-match pass: a header matches when its
  trimmed, case-folded form equals that of some alias.
\<close>

definition alias_match :: "string list \<Rightarrow> string \<Rightarrow> bool" where
  "alias_match names col \<longleftrightarrow> (\<exists>n\<in>set names. lower (strip col) = lower (strip n))"

text \<open>The rank at which the inner loop stops, counted from \<open>rank\<close>.\<close>

fun first_rank :: "pattern list \<Rightarrow> nat \<Rightarrow> string \<Rightarrow> nat option" where
  "first_rank [] rank c = None"
| "first_rank (pat # pats) rank c = (if pat c then Some rank else first_rank pats (Suc rank) c)"

section \<open>Row processing (script2.py)\<close>

text \<open>
  A row of the table maps a column name to its cell; \<open>row.get(col, "")\<close> gives the
  empty text for a column the table does not have.
\<close>

type_synonym row = "string \<rightharpoonup> cell"

definition row_get :: "row \<Rightarrow> string \<Rightarrow> cell" where
  "row_get r col = (case r col of None \<Rightarrow> CStr '''' | Some v \<Rightarrow> v)"

text \<open>An entry of \<open>invalid_rows\<close>: the dictionary with the keys row, house, street, zip, reason.\<close>

record invalid_row =
  ir_row :: nat
  ir_house :: string
  ir_street :: string
  ir_zip :: string
  ir_reason :: string

text \<open>
  What the browser session gives for one row. \<open>Fault e\<close>: a step before the scrape
  (loading the page, filling the form, the click, reading \<open>divMessage\<close>) raised an
  exception whose text is \<open>e\<close>. \<open>Loaded p\<close>: the page \<open>p\<close> came back; \<open>divMessage\<close>
  is the text of the first element with that id (\<open>None\<close> when there is none), and each
  district is the text of its element (\<open>None\<close> when \<open>find_element\<close> raises).
\<close>

record page =
  divMessage :: "string option"
  assembly_district :: "string option"
  election_district :: "string option"
  congress_district :: "string option"
  senate_district :: "string option"
  council_district :: "string option"
  judicial_district :: "string option"

datatype site = Fault string | Loaded page

text \<open>
  The invalid-address check \<open>error_msg_element and error_msg_element[0].text.strip()\<close>:
  the trimmed text of the message element, empty when the page has none.
\<close>

definition message_text :: "page \<Rightarrow> string" where
  "message_text p = (case divMessage p of None \<Rightarrow> '''' | Some m \<Rightarrow> strip m)"

definition safe_get_text :: "string option \<Rightarrow> string \<Rightarrow> string" where
  "safe_get_text elem fallback =
     (case elem of
        None \<Rightarrow> fallback
      | Some text \<Rightarrow>
          (let txt = (if text \<noteq> [] then strip text else '''')
           in if txt \<noteq> [] then txt else fallback))"

text \<open>\<open>s.split(sep)[0]\<close>: the text before the first separator, all of it when there is none.\<close>

definition split_first :: "char \<Rightarrow> string \<Rightarrow> string" where
  "split_first sep s = takeWhile (\<lambda>c. c \<noteq> sep) s"

text \<open>The dictionary \<open>site_data\<close>, in its insertion order.\<close>

definition site_data :: "page \<Rightarrow> (string \<times> string) list" where
  "site_data p =
     [(''AD'', safe_get_text (assembly_district p) ''''),
      (''ED'', split_first CHR ''/'' (safe_get_text (election_district p) '''')),
      (''Cong D'', safe_get_text (congress_district p) ''''),
      (''SD'', safe_get_text (senate_district p) ''''),
      (''Council D'', safe_get_text (council_district p) ''''),
      (''JD'', safe_get_text (judicial_district p) '''')]"

text \<open>
  The update loop. \<open>row\<close> is the copy \<open>iterrows\<close> handed out, read only; \<open>df_row\<close> is
  the row of the table that \<open>df.at[index, field] = site_val\<close> writes. The result also
  lists the fields written, in order: \<open>all_match\<close> is true exactly when none was.
\<close>

fun update_fields :: "(string \<times> string) list \<Rightarrow> row \<Rightarrow> row \<Rightarrow> row \<times> string list" where
  "update_fields [] row df_row = (df_row, [])"
| "update_fields ((field, site_val) # rest) row df_row =
     (let excel_val = strip (safe_text (row_get row field))
      in if excel_val \<noteq> site_val
         then (let (r, updated) = update_fields rest row (df_row(field \<mapsto> CStr site_val))
               in (r, field # updated))
         else update_fields rest row df_row)"

definition invalid :: "nat \<Rightarrow> string \<Rightarrow> string \<Rightarrow> string \<Rightarrow> string \<Rightarrow> invalid_row" where
  "invalid index house_number street_name zip_code why =
     \<lparr>ir_row = index, ir_house = house_number, ir_street = street_name,
      ir_zip = zip_code, ir_reason = why\<rparr>"

text \<open>
  One turn of the loop over the rows: the row of the table after it, \<open>invalid_rows\<close>
  after it, and the fields written.
\<close>

definition process_row ::
  "string \<Rightarrow> string \<Rightarrow> string \<Rightarrow> nat \<Rightarrow> row \<Rightarrow> site \<Rightarrow> invalid_row list
     \<Rightarrow> row \<times> invalid_row list \<times> string list"
where
  "process_row house_col street_col zip_col index row resp invalid_rows =
     (let house_number = clean_house (row_get row house_col);
          street_name = clean_street (row_get row street_col);
          zip_code = clean_zip (row_get row zip_col)
      in if house_number = [] \<or> street_name = [] \<or> zip_code = []
         then (row, invalid_rows, [])
         else (case resp of
                 Fault e \<Rightarrow>
                   (row,
                    invalid_rows @ [invalid index house_number street_name zip_code (''Script error: '' @ e)],
                    [])
               | Loaded p \<Rightarrow>
                   if message_text p \<noteq> []
                   then (row,
                         invalid_rows @ [invalid index house_number street_name zip_code
                                           (message_text p)],
                         [])
                   else if list_all (\<lambda>v. v = []) (map snd (site_data p))
                   then (row,
                         invalid_rows @ [invalid index house_number street_name zip_code
                                           ''No polling info returned''],
                         [])
                   else (let (r, updated) = update_fields (site_data p) row row
                         in (r, invalid_rows, updated))))"

section \<open>Row processing (script.py)\<close>

text \<open>
  The first script reads the fixed columns \<open>HOUSE #\<close>, \<open>STREET NAME\<close> and \<open>ZIP CODE\<close>
  with \<open>row[col]\<close>, which raises \<open>KeyError\<close> for a column the table does not have; the
  text of that exception is the key in quotes. Its names carry the suffix \<open>_v1\<close>.
\<close>

definition key_error :: "string \<Rightarrow> string" where
  "key_error k = [CHR 0x27] @ k @ [CHR 0x27]"

definition safe_get_text_v1 :: "string option \<Rightarrow> string \<Rightarrow> string" where
  "safe_get_text_v1 elem fallback =
     (case elem of
        None \<Rightarrow> fallback
      | Some text \<Rightarrow> if text \<noteq> [] then strip text else fallback)"

definition site_data_v1 :: "page \<Rightarrow> (string \<times> string) list" where
  "site_data_v1 p =
     [(''AD'', safe_get_text_v1 (assembly_district p) ''''),
      (''ED'', split_first CHR ''/'' (safe_get_text_v1 (election_district p) '''')),
      (''Cong D'', safe_get_text_v1 (congress_district p) ''''),
      (''SD'', safe_get_text_v1 (senate_district p) ''''),
      (''Council D'', safe_get_text_v1 (council_district p) ''''),
      (''JD'', safe_get_text_v1 (judicial_district p) '''')]"

text \<open>
  The update loop of the first script: \<open>Inl (k, df_row, updated)\<close> when \<open>row[field]\<close>
  raised \<open>KeyError\<close> for the column \<open>k\<close>, with the table as the earlier turns left it.
\<close>

fun update_fields_v1 ::
  "(string \<times> string) list \<Rightarrow> row \<Rightarrow> row \<Rightarrow> (string \<times> row \<times> string list) + (row \<times> string list)"
where
  "update_fields_v1 [] row df_row = Inr (df_row, [])"
| "update_fields_v1 ((field, site_val) # rest) row df_row =
     (case row field of
        None \<Rightarrow> Inl (field, df_row, [])
      | Some v \<Rightarrow>
          (let excel_val = (if \<not> isna v then zfill (length site_val) (py_str v) else '''')
           in if excel_val \<noteq> site_val
              then (case update_fields_v1 rest row (df_row(field \<mapsto> CStr site_val)) of
                      Inl (k, r, updated) \<Rightarrow> Inl (k, r, field # updated)
                    | Inr (r, updated) \<Rightarrow> Inr (r, field # updated))
              else update_fields_v1 rest row df_row))"

text \<open>
  The loop variables \<open>house_number\<close>, \<open>street_name\<close> and \<open>zip_code\<close> are not reset
  at the start of a turn: the handler reads what an earlier turn left, and raises
  \<open>NameError\<close>, which ends the run, when a variable was never bound.
\<close>

record vars =
  house_number :: "string option"
  street_name :: "string option"
  zip_code :: "string option"

datatype crash = NameError

definition handler_v1 ::
  "nat \<Rightarrow> string \<Rightarrow> row \<Rightarrow> invalid_row list \<Rightarrow> string list \<Rightarrow> vars
     \<Rightarrow> crash + (row \<times> invalid_row list \<times> string list \<times> vars)"
where
  "handler_v1 index e df_row invalid_rows updated vs =
     (case (house_number vs, street_name vs, zip_code vs) of
        (Some h, Some s, Some z) \<Rightarrow>
          Inr (df_row, invalid_rows @ [invalid index h s z (''Script error: '' @ e)], updated, vs)
      | _ \<Rightarrow> Inl NameError)"

definition process_row_v1 ::
  "nat \<Rightarrow> row \<Rightarrow> site \<Rightarrow> invalid_row list \<Rightarrow> vars
     \<Rightarrow> crash + (row \<times> invalid_row list \<times> string list \<times> vars)"
where
  "process_row_v1 index row resp invalid_rows vs =
     (case row ''HOUSE #'' of
        None \<Rightarrow> handler_v1 index (key_error ''HOUSE #'') row invalid_rows [] vs
      | Some hc \<Rightarrow>
     let vs = vs\<lparr>house_number := Some (strip (py_str hc))\<rparr> in
     (case row ''STREET NAME'' of
        None \<Rightarrow> handler_v1 index (key_error ''STREET NAME'') row invalid_rows [] vs
      | Some sc \<Rightarrow>
     let vs = vs\<lparr>street_name := Some (strip (py_str sc))\<rparr> in
     (case row ''ZIP CODE'' of
        None \<Rightarrow> handler_v1 index (key_error ''ZIP CODE'') row invalid_rows [] vs
      | Some zc \<Rightarrow>
     let vs = vs\<lparr>zip_code := Some (strip (py_str zc))\<rparr>;
         h = strip (py_str hc); s = strip (py_str sc); z = strip (py_str zc)
     in if h = [] \<or> s = [] \<or> z = []
        then Inr (row, invalid_rows, [], vs)
        else (case resp of
                Fault e \<Rightarrow> handler_v1 index e row invalid_rows [] vs
              | Loaded p \<Rightarrow>
                  if message_text p \<noteq> []
                  then Inr (row, invalid_rows @ [invalid index h s z (message_text p)], [], vs)
                  else if list_all (\<lambda>v. v = []) (map snd (site_data_v1 p))
                  then Inr (row, invalid_rows @ [invalid index h s z ''No polling info returned''],
                            [], vs)
                  else (case update_fields_v1 (site_data_v1 p) row row of
                          Inl (k, r, updated) \<Rightarrow>
                            handler_v1 index (key_error k) r invalid_rows updated vs
                        | Inr (r, updated) \<Rightarrow> Inr (r, invalid_rows, updated, vs))))))"

section \<open>Output path selection (both scripts)\<close>

text \<open>
  \<open>exists\<close> is \<open>os.path.exists\<close> on the file system of the run; \<open>base_name\<close> is
  \<open>os.path.splitext(file_path)[0]\<close>; \<open>suffix\<close> is \<open>_with_districts\<close> in script2.py
  and \<open>_corrected\<close> in script.py. The loop has no bound of its own, so it is a partial
  function: \<open>None\<close> is a loop that never ends.
\<close>

definition first_path :: "string \<Rightarrow> string \<Rightarrow> string" where
  "first_path base_name suffix = base_name @ suffix @ ''.xlsx''"

definition numbered_path :: "string \<Rightarrow> string \<Rightarrow> nat \<Rightarrow> string" where
  "numbered_path base_name suffix i = base_name @ suffix @ ''('' @ str_nat i @ '').xlsx''"

partial_function (option) free_path ::
  "(string \<Rightarrow> bool) \<Rightarrow> string \<Rightarrow> string \<Rightarrow> string \<Rightarrow> nat \<Rightarrow> string option"
where
  "free_path exists base_name suffix output_path i =
     (if exists output_path
      then free_path exists base_name suffix (numbered_path base_name suffix i) (i + 1)
      else Some output_path)"

definition output_path :: "(string \<Rightarrow> bool) \<Rightarrow> string \<Rightarrow> string \<Rightarrow> string option" where
  "output_path exists base_name suffix =
     free_path exists base_name suffix (first_path base_name suffix) 1"

definition script2_suffix :: string where
  "script2_suffix = ''_with_districts''"

definition script_suffix :: string where
  "script_suffix = ''_corrected''"

section \<open>The specification's wording of the normalizers\<close>

text \<open>
  The companion text coercion as the specification describes it: empty for the null and
  not-a-number sentinels, the plain decimal text for integers, for a float the
  integer-formatted text when it has no fractional part and its default text otherwise,
  and the default conversion for everything else.
\<close>

fun text_spec :: "cell \<Rightarrow> string" where
  "text_spec CNone = ''''"
| "text_spec CNA = ''''"
| "text_spec (CInt i) = str_int i"
| "text_spec (CFloat FNan) = ''''"
| "text_spec (CFloat (FWhole i r)) = str_int i"
| "text_spec (CFloat (FFrac r)) = r"
| "text_spec (CStr s) = s"

text \<open>Stripping one literal trailing \<open>.0\<close>.\<close>

definition strip_suffix_dot0 :: "string \<Rightarrow> string" where
  "strip_suffix_dot0 s = (if ends_with s ''.0'' then take (length s - 2) s else s)"

text \<open>
  \<open>clean_house\<close> in the specification's order: convert to text, trim, collapse white
  space, then strip a trailing \<open>.0\<close>.
\<close>

definition clean_house_spec :: "cell \<Rightarrow> string" where
  "clean_house_spec x = strip_suffix_dot0 (collapse_ws (strip (text_spec x)))"

text \<open>
  \<open>clean_zip\<close> in the specification's words: convert to text, remove every non-digit,
  pad four digits with one zero on the left, cut five or more down to the first five.
\<close>

definition clean_zip_spec :: "cell \<Rightarrow> string" where
  "clean_zip_spec x =
     (let d = filter is_digit (text_spec x)
      in if length d = 4 then CHR ''0'' # d
         else if 5 \<le> length d then take 5 d
         else d)"

text \<open>A text with no white space at either end.\<close>

definition trimmed :: "string \<Rightarrow> bool" where
  "trimmed s \<longleftrightarrow> s = [] \<or> (\<not> is_space (hd s) \<and> \<not> is_space (last s))"

text \<open>
  The invariant of the loop over the headers in \<open>find_regex\<close>: \<open>best\<close> holds the
  smallest key among the matching pairs of the headers seen so far.
\<close>

definition good :: "pattern list \<Rightarrow> string list \<Rightarrow> (key \<times> string) option \<Rightarrow> bool" where
  "good pats seen best \<longleftrightarrow>
     (case best of
        None \<Rightarrow> (\<forall>col\<in>set seen. \<forall>r. \<not> matching pats col r)
      | Some b \<Rightarrow>
          snd b \<in> set seen
          \<and> (\<exists>r. matching pats (snd b) r \<and> fst b = pair_key (snd b) r)
          \<and> (\<forall>col\<in>set seen. \<forall>r. matching pats col r \<longrightarrow> key_le (fst b) (pair_key col r)))"

section \<open>Closed forms of the update loops\<close>

text \<open>
  The update loop in closed form: the fields whose cell differs from the scraped value
  are written, in the order of \<open>site_data\<close>.
\<close>

definition mismatch :: "row \<Rightarrow> string \<times> string \<Rightarrow> bool" where
  "mismatch row fv \<longleftrightarrow> strip (safe_text (row_get row (fst fv))) \<noteq> snd fv"

definition write_all :: "(string \<times> string) list \<Rightarrow> row \<Rightarrow> row" where
  "write_all fvs df_row = fold (\<lambda>fv d. d(fst fv \<mapsto> CStr (snd fv))) fvs df_row"

text \<open>
  The update loop of the first script in closed form: the loop stops at the first column
  the table does not have; before it, the fields that differ are written.
\<close>

definition mismatch_v1 :: "row \<Rightarrow> string \<times> string \<Rightarrow> bool" where
  "mismatch_v1 row fv \<longleftrightarrow>
     (case row (fst fv) of
        None \<Rightarrow> False
      | Some v \<Rightarrow> (if \<not> isna v then zfill (length (snd fv)) (py_str v) else '''') \<noteq> snd fv)"

definition outcome_v1 ::
  "(string \<times> row \<times> string list) + (row \<times> string list) \<Rightarrow> row \<times> string list" where
  "outcome_v1 res = (case res of Inl (k, r, updated) \<Rightarrow> (r, updated) | Inr (r, updated) \<Rightarrow> (r, updated))"

section \<open>Example inputs\<close>

text \<open>
  A result page of the site, a page with no district text, a row of a table with all
  the columns, a row of a table that has no \<open>ED\<close> column, the loop variables of the
  first script before the first row, and two rows whose district cells differ from the
  scraped texts only by blanks or by a leading zero.
\<close>

definition result_page :: page where
  "result_page =
     \<lparr>divMessage = None, assembly_district = Some ''65'', election_district = Some ''012/03'',
      congress_district = Some ''10'', senate_district = Some ''26'',
      council_district = Some ''1'', judicial_district = Some ''2''\<rparr>"

definition blank_page :: page where
  "blank_page =
     \<lparr>divMessage = Some '' '', assembly_district = None, election_district = Some '' '',
      congress_district = None, senate_district = Some '''',
      council_district = None, judicial_district = None\<rparr>"

definition sheet_row :: row where
  "sheet_row =
     [''HOUSE #'' \<mapsto> CStr ''1876.0'', ''STREET NAME'' \<mapsto> CStr ''19th  ave'',
      ''ZIP CODE'' \<mapsto> CStr ''1120'', ''AD'' \<mapsto> CStr ''65'', ''ED'' \<mapsto> CStr ''13'',
      ''Cong D'' \<mapsto> CNA, ''SD'' \<mapsto> CNA, ''Council D'' \<mapsto> CNA, ''JD'' \<mapsto> CNA]"

definition sheet_row_no_ed :: row where
  "sheet_row_no_ed =
     [''HOUSE #'' \<mapsto> CStr ''1'', ''STREET NAME'' \<mapsto> CStr ''Main St'',
      ''ZIP CODE'' \<mapsto> CStr ''11204'', ''AD'' \<mapsto> CStr ''1'']"

definition unbound :: vars where
  "unbound = \<lparr>house_number = None, street_name = None, zip_code = None\<rparr>"

definition sheet_row_blanks :: row where
  "sheet_row_blanks =
     [''HOUSE #'' \<mapsto> CStr ''1876.0'', ''STREET NAME'' \<mapsto> CStr ''19th  ave'',
      ''ZIP CODE'' \<mapsto> CStr ''1120'', ''AD'' \<mapsto> CStr '' 65 '', ''ED'' \<mapsto> CStr '' 012 '',
      ''Cong D'' \<mapsto> CStr ''10'', ''SD'' \<mapsto> CStr ''26'', ''Council D'' \<mapsto> CStr ''1'',
      ''JD'' \<mapsto> CStr ''2'']"

definition sheet_row_short :: row where
  "sheet_row_short =
     [''HOUSE #'' \<mapsto> CStr ''1876.0'', ''STREET NAME'' \<mapsto> CStr ''19th  ave'',
      ''ZIP CODE'' \<mapsto> CStr ''1120'', ''AD'' \<mapsto> CStr ''65'', ''ED'' \<mapsto> CStr ''12'',
      ''Cong D'' \<mapsto> CStr ''10'', ''SD'' \<mapsto> CStr ''26'', ''Council D'' \<mapsto> CStr ''1'',
      ''JD'' \<mapsto> CStr ''2'']"

definition plain_page :: page where
  "plain_page = result_page\<lparr>election_district := Some '' 012 ''\<rparr>"

section \<open>Lemmas on the text primitives\<close>

lemma text_spec_eq: "safe_text x = text_spec x"
  by (cases x rule: text_spec.cases) simp_all

lemma dropWhile_last_keep:
  "xs \<noteq> [] \<Longrightarrow> \<not> P (last xs) \<Longrightarrow> dropWhile P xs \<noteq> [] \<and> last (dropWhile P xs) = last xs"
  by (induction xs) (auto split: if_splits)

lemma dropWhile_all: "\<forall>x\<in>set xs. P x \<Longrightarrow> dropWhile P xs = []"
  by simp

lemma dropWhile_hd_keep: "xs \<noteq> [] \<Longrightarrow> \<not> P (hd xs) \<Longrightarrow> dropWhile P xs = xs"
  by (cases xs) auto

lemma trimmed_strip: "trimmed (strip s)"
proof -
  let ?a = "dropWhile is_space s"
  let ?b = "dropWhile is_space (rev ?a)"
  have s: "strip s = rev ?b" by (simp add: strip_def)
  show ?thesis
  proof (cases "?b = []")
    case True then show ?thesis by (simp add: s trimmed_def)
  next
    case False
    have a: "?a \<noteq> []"
    proof
      assume e: "?a = []"
      have "?b = []" unfolding e by simp
      with False show False by contradiction
    qed
    have hb: "\<not> is_space (hd ?b)" using False by (rule hd_dropWhile)
    have ha: "\<not> is_space (hd ?a)" using a by (rule hd_dropWhile)
    have "rev ?a \<noteq> []" "\<not> is_space (last (rev ?a))" using a ha by (simp_all add: last_rev)
    from dropWhile_last_keep[of "rev ?a" is_space, OF this] have "last ?b = hd ?a" using a by (simp add: last_rev)
    then have "hd (rev ?b) = hd ?a" using False by (simp add: hd_rev)
    moreover have "last (rev ?b) = hd ?b" using False by (simp add: last_rev)
    ultimately show ?thesis using ha hb by (simp add: s trimmed_def)
  qed
qed

lemma strip_trimmed: "trimmed s \<Longrightarrow> strip s = s"
proof (cases "s = []")
  case True then show ?thesis by (simp add: strip_def)
next
  case False
  assume "trimmed s"
  with False have h: "\<not> is_space (hd s)" and l: "\<not> is_space (last s)" by (simp_all add: trimmed_def)
  have 1: "dropWhile is_space s = s" using False h by (rule dropWhile_hd_keep)
  have "rev s \<noteq> []" "\<not> is_space (hd (rev s))" using False l by (simp_all add: hd_rev)
  then have 2: "dropWhile is_space (rev s) = rev s" by (rule dropWhile_hd_keep)
  show ?thesis by (simp add: strip_def 1 2)
qed

lemma collapse_ws_append:
  "\<not> is_space c \<Longrightarrow> collapse_ws (u @ c # v) = collapse_ws u @ c # collapse_ws v"
  by (induction u rule: collapse_ws.induct) (auto simp: dropWhile_append dropWhile_all)

lemma set_collapse_ws: "set (collapse_ws s) \<subseteq> insert (CHR 0x20) (set s)"
  by (induction s rule: collapse_ws.induct) (auto dest: set_dropWhileD)

lemma collapse_ws_hd: "s \<noteq> [] \<Longrightarrow> \<not> is_space (hd s) \<Longrightarrow> collapse_ws s \<noteq> [] \<and> hd (collapse_ws s) = hd s"
  by (cases s) auto

lemma collapse_ws_Nil: "collapse_ws s = [] \<longleftrightarrow> s = []"
  by (cases s) auto

lemma collapse_ws_snoc: "\<not> is_space c \<Longrightarrow> collapse_ws (u @ [c]) = collapse_ws u @ [c]"
  using collapse_ws_append[of c u "[]"] by simp

lemma collapse_ws_idem: "collapse_ws (collapse_ws s) = collapse_ws s"
proof (induction s rule: collapse_ws.induct)
  case 1 show ?case by simp
next
  case (2 c cs)
  show ?case
  proof (cases "is_space c")
    case False with 2 show ?thesis by simp
  next
    case True
    let ?r = "dropWhile is_space cs"
    have sp: "is_space (CHR 0x20)" by (simp add: is_space_def whitespace_def)
    have "dropWhile is_space (collapse_ws ?r) = collapse_ws ?r"
    proof (cases "?r = []")
      case True then show ?thesis by (simp only: collapse_ws.simps dropWhile.simps)
    next
      case False
      then have "\<not> is_space (hd ?r)" by (rule hd_dropWhile)
      with False have "collapse_ws ?r \<noteq> [] \<and> hd (collapse_ws ?r) = hd ?r" by (rule collapse_ws_hd)
      with \<open>\<not> is_space (hd ?r)\<close> show ?thesis by (simp add: dropWhile_hd_keep)
    qed
    with True 2 sp show ?thesis by simp
  qed
qed

lemma trimmed_collapse_ws: "trimmed s \<Longrightarrow> trimmed (collapse_ws s)"
proof (cases s rule: rev_cases)
  case Nil then show ?thesis by (simp add: trimmed_def)
next
  case (snoc u c)
  assume t: "trimmed s"
  with snoc have c: "\<not> is_space c" and h: "\<not> is_space (hd s)" by (simp_all add: trimmed_def)
  have s: "s \<noteq> []" using snoc by simp
  from collapse_ws_hd[OF s h] have "\<not> is_space (hd (collapse_ws s))" using h by simp
  moreover have "last (collapse_ws s) = c" using snoc c by (simp add: collapse_ws_snoc)
  ultimately show ?thesis using c by (simp add: trimmed_def)
qed

lemma ends_with_iff: "ends_with s t \<longleftrightarrow> (\<exists>u. s = u @ t)"
proof
  assume "ends_with s t"
  then have "s = take (length s - length t) s @ t"
    by (metis append_take_drop_id ends_with_def)
  then show "\<exists>u. s = u @ t" ..
next
  assume "\<exists>u. s = u @ t"
  then show "ends_with s t" by (auto simp: ends_with_def)
qed

lemma not_space_dot0: "\<not> is_space CHR ''.''" "\<not> is_space CHR ''0''"
  by (simp_all add: is_space_def whitespace_def)

lemma space_newline: "is_space (CHR 0x0A)" "is_space (CHR 0x20)"
  by (simp_all add: is_space_def whitespace_def)

lemma sub_dot0_trimmed: "trimmed s \<Longrightarrow> sub_dot0 s = strip_suffix_dot0 s"
proof -
  assume t: "trimmed s"
  have "\<not> ends_with s [CHR ''.'', CHR ''0'', CHR 0x0A]"
  proof
    assume "ends_with s [CHR ''.'', CHR ''0'', CHR 0x0A]"
    then obtain u where "s = u @ [CHR ''.'', CHR ''0'', CHR 0x0A]" by (auto simp: ends_with_iff)
    then have "s \<noteq> []" "last s = CHR 0x0A" by simp_all
    with t space_newline(1) show False by (simp add: trimmed_def)
  qed
  then show ?thesis by (simp add: sub_dot0_def strip_suffix_dot0_def)
qed

lemma collapse_ws_dot0: "collapse_ws (u @ ''.0'') = collapse_ws u @ ''.0''"
  using collapse_ws_append[of "CHR ''.''" u "''0''"] not_space_dot0 by simp

lemma collapse_ws_last_space:
  "is_space c \<Longrightarrow> collapse_ws (u @ [c]) \<noteq> [] \<and> last (collapse_ws (u @ [c])) = CHR 0x20"
proof (induction u rule: collapse_ws.induct)
  case 1 then show ?case by simp
next
  case (2 d ds)
  show ?case
  proof (cases "is_space d")
    case False with 2 show ?thesis by simp
  next
    case True
    show ?thesis
    proof (cases "\<forall>x\<in>set ds. is_space x")
      case True
      with \<open>is_space d\<close> 2(3) show ?thesis by (simp add: dropWhile_append)
    next
      case False
      with \<open>is_space d\<close> 2 show ?thesis by (simp add: dropWhile_append)
    qed
  qed
qed

lemma ends_dot0_collapse: "ends_with (collapse_ws s) ''.0'' \<longleftrightarrow> ends_with s ''.0''"
proof
  assume "ends_with s ''.0''"
  then obtain u where "s = u @ ''.0''" by (auto simp: ends_with_iff)
  then have "collapse_ws s = collapse_ws u @ ''.0''" by (simp only: collapse_ws_dot0)
  then show "ends_with (collapse_ws s) ''.0''" by (auto simp only: ends_with_iff)
next
  assume a: "ends_with (collapse_ws s) ''.0''"
  then obtain w where w: "collapse_ws s = w @ ''.0''" by (auto simp: ends_with_iff)
  show "ends_with s ''.0''"
  proof (cases s rule: rev_cases)
    case Nil with w show ?thesis by simp
  next
    case (snoc u c)
    show ?thesis
    proof (cases "is_space c")
      case True
      from collapse_ws_last_space[OF True, of u] snoc w show ?thesis by simp
    next
      case False
      with snoc w have c: "c = CHR ''0''" and u: "collapse_ws u = w @ ''.''"
        by (simp_all add: collapse_ws_snoc)
      show ?thesis
      proof (cases u rule: rev_cases)
        case Nil with u show ?thesis by simp
      next
        case (snoc u' d)
        show ?thesis
        proof (cases "is_space d")
          case True
          from collapse_ws_last_space[OF True, of u'] snoc u show ?thesis by simp
        next
          case False
          with snoc u have "d = CHR ''.''" by (simp add: collapse_ws_snoc)
          with snoc c \<open>s = u @ [c]\<close> show ?thesis by (simp add: ends_with_iff)
        qed
      qed
    qed
  qed
qed

lemma collapse_strip_suffix:
  "collapse_ws (strip_suffix_dot0 s) = strip_suffix_dot0 (collapse_ws s)"
proof (cases "ends_with s ''.0''")
  case False
  then show ?thesis by (simp add: strip_suffix_dot0_def ends_dot0_collapse)
next
  case True
  then obtain u where u: "s = u @ ''.0''" by (auto simp: ends_with_iff)
  have c: "collapse_ws s = collapse_ws u @ ''.0''" unfolding u by (rule collapse_ws_dot0)
  have "ends_with (collapse_ws s) ''.0''" using True by (simp add: ends_dot0_collapse)
  then have "strip_suffix_dot0 (collapse_ws s) = collapse_ws u"
    by (simp add: strip_suffix_dot0_def c)
  moreover have "strip_suffix_dot0 s = u" using True by (simp add: strip_suffix_dot0_def u)
  ultimately show ?thesis by simp
qed

lemma clean_house_refines: "clean_house x = clean_house_spec x"
  by (simp add: clean_house_def clean_house_spec_def sub_dot0_trimmed trimmed_strip
      collapse_strip_suffix text_spec_eq)

lemma filter_dropWhile_disjoint:
  "(\<And>x. P x \<Longrightarrow> \<not> Q x) \<Longrightarrow> filter Q (dropWhile P xs) = filter Q xs"
  by (induction xs) auto

lemma space_not_digit: "is_space c \<Longrightarrow> \<not> is_digit c"
  by (auto simp: is_space_def whitespace_def is_digit_def)

lemma digits_only_strip: "digits_only (strip s) = digits_only s"
proof -
  have "filter is_digit (rev (dropWhile is_space (rev (dropWhile is_space s))))
        = rev (filter is_digit (dropWhile is_space (rev (dropWhile is_space s))))"
    by (simp only: rev_filter)
  also have "\<dots> = rev (filter is_digit (rev (dropWhile is_space s)))"
    by (simp only: filter_dropWhile_disjoint[of is_space is_digit, OF space_not_digit])
  also have "\<dots> = filter is_digit (dropWhile is_space s)"
    by (simp only: rev_filter[symmetric] rev_rev_ident)
  also have "\<dots> = filter is_digit s"
    by (simp only: filter_dropWhile_disjoint[of is_space is_digit, OF space_not_digit])
  finally show ?thesis by (simp only: digits_only_def strip_def)
qed

lemma zfill_digits4:
  assumes "length d = 4" "\<forall>c\<in>set d. is_digit c"
  shows "zfill 5 d = CHR ''0'' # d"
proof -
  from assms(1) obtain c cs where d: "d = c # cs" by (cases d) auto
  with assms(2) have "is_digit c" by simp
  then have "c \<noteq> CHR ''+''" "c \<noteq> CHR ''-''" by (auto simp: is_digit_def)
  with assms(1) d show ?thesis by (simp add: zfill_def)
qed

lemma clean_zip_refines: "clean_zip x = clean_zip_spec x"
proof -
  let ?d = "filter is_digit (text_spec x)"
  have d: "digits_only (strip (safe_text x)) = ?d"
    by (simp add: digits_only_strip) (simp add: digits_only_def text_spec_eq)
  show ?thesis
  proof (cases "length ?d = 4")
    case True
    then have "zfill 5 ?d = CHR ''0'' # ?d" by (rule zfill_digits4) simp
    with True show ?thesis by (simp add: clean_zip_def clean_zip_spec_def d Let_def)
  next
    case False
    then show ?thesis by (simp add: clean_zip_def clean_zip_spec_def d Let_def)
  qed
qed

lemma digit_zero: "is_digit CHR ''0''"
  by (simp add: is_digit_def)

lemma clean_zip_digits: "\<forall>c\<in>set (clean_zip x). is_digit c"
  by (auto simp: clean_zip_refines clean_zip_spec_def Let_def digit_zero dest: in_set_takeD)

lemma clean_zip_length: "length (clean_zip x) \<le> 5 \<and> length (clean_zip x) \<noteq> 4"
  by (auto simp: clean_zip_refines clean_zip_spec_def Let_def)

lemma clean_zip_short:
  "length (filter is_digit (safe_text x)) < 4 \<Longrightarrow> clean_zip x = filter is_digit (safe_text x)"
  by (simp add: clean_zip_refines clean_zip_spec_def Let_def text_spec_eq)

lemma clean_zip_idem: "clean_zip (CStr (clean_zip x)) = clean_zip x"
proof -
  let ?y = "clean_zip x"
  have f: "filter is_digit ?y = ?y" using clean_zip_digits[of x] by (simp only: filter_True)
  have l: "length ?y \<le> 5" "length ?y \<noteq> 4" using clean_zip_length[of x] by simp_all
  have "clean_zip (CStr ?y) = clean_zip_spec (CStr ?y)" by (rule clean_zip_refines)
  also have "\<dots> = ?y" using l by (simp add: clean_zip_spec_def f Let_def)
  finally show ?thesis .
qed

lemma is_space_code: "is_space c \<Longrightarrow> (of_char c :: nat) \<le> 32"
  by (auto simp: is_space_def whitespace_def)

lemma upper_char_space: "is_space (upper_char c) \<longleftrightarrow> is_space c"
proof (cases "97 \<le> (of_char c :: nat) \<and> (of_char c :: nat) \<le> 122")
  case False then show ?thesis by (auto simp: upper_char_def Let_def)
next
  case True
  then have "(of_char c :: nat) - 32 < 256" by arith
  with True have "(of_char (upper_char c) :: nat) = of_char c - 32"
    by (simp add: upper_char_def Let_def)
  with True have "\<not> (of_char (upper_char c) :: nat) \<le> 32" by arith
  then have "\<not> is_space (upper_char c)" using is_space_code by blast
  moreover have "\<not> is_space c" using True is_space_code[of c] by auto
  ultimately show ?thesis by simp
qed

lemma upper_char_idem: "upper_char (upper_char c) = upper_char c"
proof (cases "97 \<le> (of_char c :: nat) \<and> (of_char c :: nat) \<le> 122")
  case False then show ?thesis by (auto simp: upper_char_def Let_def)
next
  case True
  then have "(of_char c :: nat) - 32 < 256" by arith
  with True have "(of_char (upper_char c) :: nat) = of_char c - 32"
    by (simp add: upper_char_def Let_def)
  with True have "\<not> (97 \<le> (of_char (upper_char c) :: nat))" by arith
  then show ?thesis by (simp add: upper_char_def[of "upper_char c"] Let_def)
qed

lemma upper_char_blank: "upper_char (CHR 0x20) = CHR 0x20"
  by (simp add: upper_char_def Let_def)

lemma trimmed_upper: "trimmed s \<Longrightarrow> trimmed (upper s)"
  by (cases "s = []") (simp_all add: trimmed_def upper_def hd_map last_map upper_char_space)

lemma clean_street_idem: "clean_street (CStr (clean_street x)) = clean_street x"
proof -
  let ?u = "upper (strip (safe_text x))"
  let ?y = "collapse_ws ?u"
  have y: "clean_street x = ?y" by (simp add: clean_street_def)
  have t: "trimmed ?y" by (intro trimmed_collapse_ws trimmed_upper trimmed_strip)
  have "\<forall>c\<in>set ?y. upper_char c = c"
  proof
    fix c assume "c \<in> set ?y"
    with set_collapse_ws[of ?u] have "c = CHR 0x20 \<or> c \<in> set ?u" by auto
    then show "upper_char c = c"
      by (auto simp: upper_def upper_char_blank upper_char_idem)
  qed
  then have u: "upper ?y = ?y" by (simp add: upper_def map_idI)
  have "clean_street (CStr ?y) = collapse_ws (upper (strip ?y))" by (simp add: clean_street_def)
  also have "\<dots> = ?y" by (simp only: strip_trimmed[OF t] u collapse_ws_idem)
  finally show ?thesis by (simp only: y)
qed

lemma collapse_ws_space_blank: "c \<in> set (collapse_ws s) \<Longrightarrow> is_space c \<Longrightarrow> c = CHR 0x20"
  by (induction s rule: collapse_ws.induct) (auto split: if_splits)

lemma strip_suffix_hd:
  "trimmed s \<Longrightarrow> strip_suffix_dot0 s \<noteq> [] \<Longrightarrow> \<not> is_space (hd (strip_suffix_dot0 s))"
  by (cases s) (auto simp: trimmed_def strip_suffix_dot0_def split: if_splits)

lemma clean_house_idem_if:
  assumes "\<not> ends_with (clean_house x) ''.0''" and "\<not> ends_with (clean_house x) '' ''"
  shows "clean_house (CStr (clean_house x)) = clean_house x"
proof -
  let ?t = "strip (safe_text x)"
  let ?v = "strip_suffix_dot0 ?t"
  let ?y = "collapse_ws ?v"
  have y: "clean_house x = ?y" by (simp add: clean_house_def sub_dot0_trimmed trimmed_strip)
  have t: "trimmed ?y"
  proof (cases "?y = []")
    case True then show ?thesis by (simp add: trimmed_def)
  next
    case False
    then have v: "?v \<noteq> []" by (simp add: collapse_ws_Nil)
    then have hv: "\<not> is_space (hd ?v)" using strip_suffix_hd[OF trimmed_strip] by blast
    from collapse_ws_hd[OF v hv] have h: "\<not> is_space (hd ?y)" using hv by simp
    have "\<not> is_space (last ?y)"
    proof
      assume sp: "is_space (last ?y)"
      have "last ?y \<in> set ?y" using False by (rule last_in_set)
      then have "last ?y = CHR 0x20" using sp by (rule collapse_ws_space_blank)
      then have "?y = butlast ?y @ '' ''" using False by (metis append_butlast_last_id)
      then have "ends_with ?y '' ''" unfolding ends_with_iff by blast
      with assms(2) y show False by simp
    qed
    with h show ?thesis by (simp add: trimmed_def)
  qed
  have "clean_house (CStr ?y) = collapse_ws (sub_dot0 (strip ?y))" by (simp add: clean_house_def)
  also have "\<dots> = collapse_ws (strip_suffix_dot0 ?y)"
    by (simp only: strip_trimmed[OF t] sub_dot0_trimmed[OF t])
  also have "\<dots> = collapse_ws ?y" using assms(1) y by (simp add: strip_suffix_dot0_def)
  also have "\<dots> = ?y" by (rule collapse_ws_idem)
  finally show ?thesis by (simp only: y)
qed

lemma strip_Nil: "strip [] = []"
  by (simp add: strip_def)

lemma find_exact_alias:
  "find_exact columns names = find (alias_match names) columns"
proof -
  have "(\<lambda>col. lower (strip col) \<in> set (map (\<lambda>n. lower (strip n)) names)) = alias_match names"
    by (auto simp: alias_match_def fun_eq_iff)
  then show ?thesis by (simp add: find_exact_def)
qed

lemma alias_match_nonempty:
  assumes "\<forall>n\<in>set names. strip n \<noteq> []" and "alias_match names col"
  shows "col \<noteq> []"
proof
  assume "col = []"
  with assms(2) obtain n where n: "n \<in> set names" and "lower (strip n) = []"
    by (auto simp: alias_match_def strip_Nil lower_def)
  then have "strip n = []" by (simp add: lower_def)
  with assms(1) n show False by simp
qed

lemma key_le_trans: "key_le a b \<Longrightarrow> key_le b c \<Longrightarrow> key_le a c"
  by (auto simp: key_le_def key_less_def)

lemma key_less_le: "key_less a b \<Longrightarrow> key_le a b"
  by (auto simp: key_le_def key_less_def)

lemma first_rank_None: "first_rank pats k c = None \<longleftrightarrow> (\<forall>j<length pats. \<not> (pats ! j) c)"
  by (induction pats arbitrary: k) (auto simp: less_Suc_eq_0_disj)

lemma first_rank_Some:
  "first_rank pats k c = Some r \<Longrightarrow>
     k \<le> r \<and> r - k < length pats \<and> (pats ! (r - k)) c \<and> (\<forall>j<r - k. \<not> (pats ! j) c)"
proof (induction pats arbitrary: k)
  case Nil then show ?case by simp
next
  case (Cons p ps)
  show ?case
  proof (cases "p c")
    case True with Cons.prems show ?thesis by simp
  next
    case False
    with Cons.prems have "first_rank ps (Suc k) c = Some r" by simp
    from Cons.IH[OF this] have h: "Suc k \<le> r" "r - Suc k < length ps" "(ps ! (r - Suc k)) c"
      "\<forall>j<r - Suc k. \<not> (ps ! j) c" by simp_all
    from h(1) have e: "r - k = Suc (r - Suc k)" by simp
    have "\<forall>j<r - k. \<not> ((p # ps) ! j) c"
    proof (intro allI impI)
      fix j assume "j < r - k"
      then show "\<not> ((p # ps) ! j) c" using False h(4) e by (cases j) auto
    qed
    with h e show ?thesis by auto
  qed
qed

lemma scan_patterns_first_rank:
  "scan_patterns pats k c col best =
     (case first_rank pats k c of
        None \<Rightarrow> best
      | Some r \<Rightarrow>
          (case best of
             None \<Rightarrow> Some ((r, - int (length c)), col)
           | Some b \<Rightarrow>
               if key_less (r, - int (length c)) (fst b)
               then Some ((r, - int (length c)), col) else best))"
  by (induction pats arbitrary: k) auto

lemma good_step:
  assumes "good pats seen best"
  shows "good pats (seen @ [col]) (scan_patterns pats 0 (norm_keep_symbols col) col best)"
proof (cases "first_rank pats 0 (norm_keep_symbols col)")
  case None
  then have "\<forall>r. \<not> matching pats col r" by (simp add: first_rank_None matching_def)
  with assms None show ?thesis
    by (auto simp: scan_patterns_first_rank good_def split: option.splits)
next
  case (Some r)
  from first_rank_Some[OF Some] have m: "matching pats col r"
    and least: "\<forall>j<r. \<not> matching pats col j" by (simp_all add: matching_def)
  have low: "key_le (pair_key col r) (pair_key col r')" if "matching pats col r'" for r'
  proof -
    from that least have "r \<le> r'" by (meson not_le_imp_less)
    then show ?thesis by (auto simp: key_le_def key_less_def pair_key_def)
  qed
  have k: "(r, - int (length (norm_keep_symbols col))) = pair_key col r"
    by (simp add: pair_key_def)
  show ?thesis
  proof (cases best)
    case None
    with assms have "\<forall>c\<in>set seen. \<forall>r. \<not> matching pats c r" by (simp add: good_def)
    with None Some m low show ?thesis
      by (auto simp: scan_patterns_first_rank good_def k)
  next
    case b: (Some b)
    from assms b have bb: "snd b \<in> set seen"
      "\<exists>r. matching pats (snd b) r \<and> fst b = pair_key (snd b) r"
      "\<forall>c\<in>set seen. \<forall>r. matching pats c r \<longrightarrow> key_le (fst b) (pair_key c r)"
      by (simp_all add: good_def)
    show ?thesis
    proof (cases "key_less (pair_key col r) (fst b)")
      case True
      then have "key_le (pair_key col r) (fst b)" by (rule key_less_le)
      with bb(3) have "\<forall>c\<in>set seen. \<forall>r'. matching pats c r' \<longrightarrow> key_le (pair_key col r) (pair_key c r')"
        using key_le_trans by blast
      with True Some b m low show ?thesis
        by (auto simp: scan_patterns_first_rank good_def k)
    next
      case False
      then have "key_le (fst b) (pair_key col r)" by (simp add: key_le_def)
      with low have "\<forall>r'. matching pats col r' \<longrightarrow> key_le (fst b) (pair_key col r')"
        using key_le_trans by blast
      with False Some b bb show ?thesis
        by (auto simp: scan_patterns_first_rank good_def k)
    qed
  qed
qed

lemma good_scan:
  "good pats seen best \<Longrightarrow> good pats (seen @ cols) (scan_columns cols pats best)"
proof (induction cols arbitrary: seen best)
  case Nil then show ?case by simp
next
  case (Cons col cols)
  from good_step[OF Cons.prems, of col]
  have "good pats ((seen @ [col]) @ cols)
          (scan_columns cols pats (scan_patterns pats 0 (norm_keep_symbols col) col best))"
    by (rule Cons.IH)
  then show ?case by simp
qed

lemma good_find_regex: "good pats columns (scan_columns columns pats None)"
  using good_scan[of pats "[]" None columns] by (simp add: good_def)

lemma digit_char_digit: "d < 10 \<Longrightarrow> is_digit (digit_char d)"
  unfolding digit_char_def is_digit_def by (rule nth_mem) simp

lemma str_nat_digits: "list_all is_digit (str_nat n)"
proof (induction n rule: str_nat.induct)
  case (1 n)
  show ?case
  proof (cases "n < 10")
    case True
    then show ?thesis by (subst str_nat.simps) (simp add: digit_char_digit)
  next
    case False
    with 1 have "list_all is_digit (str_nat (n div 10))" by simp
    moreover have "is_digit (digit_char (n mod 10))" by (rule digit_char_digit) simp
    ultimately show ?thesis using False by (subst str_nat.simps) simp
  qed
qed

lemma str_int_no_dot: "CHR ''.'' \<notin> set (str_int i)"
proof -
  have "\<not> is_digit CHR ''.''" by (simp add: is_digit_def)
  then have "CHR ''.'' \<notin> set (str_nat n)" for n
    using str_nat_digits[of n] by (auto simp: list_all_iff)
  then show ?thesis by (simp add: str_int_def)
qed

lemma str_int_not_dot0: "\<not> ends_with (str_int i) ''.0''"
proof
  assume "ends_with (str_int i) ''.0''"
  then obtain u where "str_int i = u @ ''.0''" by (auto simp: ends_with_iff)
  then have "CHR ''.'' \<in> set (str_int i)" by simp
  with str_int_no_dot show False by blast
qed

lemma length_collapse_ws: "length (collapse_ws s) \<le> length s"
proof (induction s rule: collapse_ws.induct)
  case 1 show ?case by simp
next
  case (2 c cs)
  have "length (dropWhile is_space cs) \<le> length cs" by (rule length_dropWhile_le)
  with 2 show ?case by (cases "is_space c") simp_all
qed

lemma length_strip: "length (strip s) \<le> length s"
proof -
  have "length (strip s) \<le> length (dropWhile is_space s)"
    unfolding strip_def using length_dropWhile_le[of is_space "rev (dropWhile is_space s)"] by simp
  also have "\<dots> \<le> length s" by (rule length_dropWhile_le)
  finally show ?thesis .
qed

lemma length_sub_dot0: "length (sub_dot0 s) \<le> length s"
proof (cases "ends_with s ''.0''")
  case True then show ?thesis by (simp add: sub_dot0_def)
next
  case False
  show ?thesis
  proof (cases "ends_with s [CHR ''.'', CHR ''0'', CHR 0x0A]")
    case True
    then have "3 \<le> length s" by (simp add: ends_with_def)
    then have "length (take (length s - 3) s @ [CHR 0x0A]) \<le> length s" by simp
    with True False show ?thesis by (simp only: sub_dot0_def if_True if_False)
  next
    case no: False
    with False show ?thesis by (simp add: sub_dot0_def)
  qed
qed

lemma clean_house_CStr: "clean_house (CStr s) = collapse_ws (sub_dot0 (strip s))"
  by (simp add: clean_house_def)

lemma length_clean_house: "length (clean_house (CStr s)) \<le> length (strip s)"
proof -
  have "length (clean_house (CStr s)) \<le> length (sub_dot0 (strip s))"
    by (simp add: clean_house_def length_collapse_ws)
  also have "\<dots> \<le> length (strip s)" by (rule length_sub_dot0)
  finally show ?thesis .
qed

lemma strip_shorter:
  assumes "s \<noteq> []" "is_space (last s)"
  shows "length (strip s) < length s"
proof (cases "dropWhile is_space s = []")
  case True
  have "strip s = []" unfolding strip_def True by simp
  with assms(1) show ?thesis by simp
next
  case False
  let ?a = "dropWhile is_space s"
  have "last ?a = last s" using False by (induction s) (auto split: if_splits)
  with assms(2) False have "is_space (hd (rev ?a))" by (simp add: hd_rev)
  moreover have "rev ?a \<noteq> []" using False by simp
  ultimately have "length (dropWhile is_space (rev ?a)) < length (rev ?a)"
    by (cases "rev ?a") (auto simp: less_Suc_eq_le length_dropWhile_le)
  then have "length (strip s) < length ?a" by (simp add: strip_def)
  also have "\<dots> \<le> length s" by (rule length_dropWhile_le)
  finally show ?thesis .
qed

lemma clean_house_hd: "clean_house x \<noteq> [] \<Longrightarrow> \<not> is_space (hd (clean_house x))"
proof -
  let ?v = "strip_suffix_dot0 (strip (safe_text x))"
  assume n: "clean_house x \<noteq> []"
  have y: "clean_house x = collapse_ws ?v"
    by (simp add: clean_house_def sub_dot0_trimmed trimmed_strip)
  with n have v: "?v \<noteq> []" by (simp add: collapse_ws_Nil)
  then have hv: "\<not> is_space (hd ?v)" using strip_suffix_hd[OF trimmed_strip] by blast
  from collapse_ws_hd[OF v hv] hv show ?thesis unfolding y by simp
qed

lemma clean_house_idem_only_if:
  assumes "clean_house (CStr (clean_house x)) = clean_house x"
  shows "\<not> ends_with (clean_house x) ''.0'' \<and> \<not> ends_with (clean_house x) '' ''"
proof -
  let ?y = "clean_house x"
  have a: "\<not> ends_with ?y '' ''"
  proof
    assume "ends_with ?y '' ''"
    then obtain u where u: "?y = u @ '' ''" by (auto simp: ends_with_iff)
    then have "?y \<noteq> []" "last ?y = CHR 0x20" by simp_all
    then have "length (strip ?y) < length ?y" using strip_shorter[of ?y] space_newline(2) by simp
    moreover have "length (clean_house (CStr ?y)) \<le> length (strip ?y)" by (rule length_clean_house)
    ultimately show False using assms by simp
  qed
  have b: "\<not> ends_with ?y ''.0''"
  proof
    assume e: "ends_with ?y ''.0''"
    then obtain u where u: "?y = u @ ''.0''" by (auto simp: ends_with_iff)
    then have n: "?y \<noteq> []" and l: "last ?y = CHR ''0''" by simp_all
    from clean_house_hd[OF n] l not_space_dot0(2) have t: "trimmed ?y" by (simp add: trimmed_def)
    have "clean_house (CStr ?y) = collapse_ws (strip_suffix_dot0 ?y)"
      by (simp only: clean_house_CStr strip_trimmed[OF t] sub_dot0_trimmed[OF t])
    also have "strip_suffix_dot0 ?y = take (length ?y - 2) ?y" using e by (simp add: strip_suffix_dot0_def)
    finally have "length (clean_house (CStr ?y)) \<le> length (take (length ?y - 2) ?y)"
      by (simp only: length_collapse_ws)
    moreover have "2 \<le> length ?y" using u by (simp add: arg_cong[OF u, of length])
    ultimately have "length (clean_house (CStr ?y)) < length ?y" by simp
    with assms show False by simp
  qed
  from a b show ?thesis by blast
qed

section \<open>Claims on the value normalizers\<close>

text \<open>
  C3. For every cell value, \<open>clean_zip\<close> is what the specification describes: the text
  of the cell with every non-digit removed, padded with one zero on the left when exactly
  four digits remain, and cut to the first five when five or more remain. In particular
  \<open>1120\<close> gives \<open>01120\<close>, \<open>112045678\<close> gives \<open>11204\<close> and \<open>abc\<close> gives the empty text.
\<close>

theorem clean_zip_meets_spec:
  "clean_zip x = clean_zip_spec x
   \<and> clean_zip (CStr ''1120'') = ''01120''
   \<and> clean_zip (CStr ''112045678'') = ''11204''
   \<and> clean_zip (CStr ''abc'') = ''''"
proof -
  have 1: "clean_zip (CStr ''1120'') = ''01120''" by code_simp
  have 2: "clean_zip (CStr ''112045678'') = ''11204''" by code_simp
  have 3: "clean_zip (CStr ''abc'') = ''''" by code_simp
  show ?thesis using clean_zip_refines[of x] 1 2 3 by (simp only: simp_thms)
qed

text \<open>
  C7. For every cell value, \<open>clean_house\<close> is what the specification describes: the
  text of the cell (empty for an absent value, an integer-valued number without a
  trailing \<open>.0\<close>), trimmed, with each run of white space collapsed to one blank, and
  then one trailing \<open>.0\<close> stripped. The code strips the \<open>.0\<close> before it collapses the
  white space; the two orders give the same text. In particular \<open>1876.0\<close> gives \<open>1876\<close>
  and \<open> 12   B \<close> gives \<open>12 B\<close>.
\<close>

theorem clean_house_meets_spec:
  "clean_house x = clean_house_spec x
   \<and> text_spec CNone = '''' \<and> text_spec CNA = '''' \<and> text_spec (CFloat FNan) = ''''
   \<and> text_spec (CFloat (FWhole i r)) = str_int i
   \<and> \<not> ends_with (text_spec (CFloat (FWhole i r))) ''.0''
   \<and> clean_house (CStr ''1876.0'') = ''1876''
   \<and> clean_house (CStr '' 12   B '') = ''12 B''"
proof -
  have 1: "clean_house (CStr ''1876.0'') = ''1876''" by code_simp
  have 2: "clean_house (CStr '' 12   B '') = ''12 B''" by code_simp
  have 3: "\<not> ends_with (text_spec (CFloat (FWhole i r))) ''.0''"
    using str_int_not_dot0[of i] by simp
  show ?thesis using clean_house_refines[of x] 1 2 3 by simp
qed

text \<open>
  C10. For every cell value, \<open>clean_zip\<close> gives a text of digits only, of length at
  most five and never four; when fewer than four digits remain, they are returned as
  they are, without padding.
\<close>

theorem clean_zip_shape:
  "list_all is_digit (clean_zip x)
   \<and> length (clean_zip x) \<le> 5
   \<and> length (clean_zip x) \<noteq> 4
   \<and> (length (digits_only (safe_text x)) < 4 \<longrightarrow> clean_zip x = digits_only (safe_text x))"
proof -
  have a: "list_all is_digit (clean_zip x)"
    using clean_zip_digits[of x] by (simp only: list_all_iff)
  have b: "length (clean_zip x) \<le> 5" "length (clean_zip x) \<noteq> 4"
    using clean_zip_length[of x] by blast+
  have c: "length (digits_only (safe_text x)) < 4 \<longrightarrow> clean_zip x = digits_only (safe_text x)"
    unfolding digits_only_def using clean_zip_short[of x] by blast
  show ?thesis using a b c by blast
qed

text \<open>The shape at a cell that keeps two digits.\<close>

theorem clean_zip_shape_witness:
  "length (digits_only (safe_text (CStr ''a12 b''))) < 4
   \<and> clean_zip (CStr ''a12 b'') = ''12''
   \<and> list_all is_digit (clean_zip (CStr ''a12 b''))"
proof -
  have d: "digits_only (safe_text (CStr ''a12 b'')) = ''12''" by code_simp
  then have l: "length (digits_only (safe_text (CStr ''a12 b''))) < 4" by simp
  from clean_zip_shape[of "CStr ''a12 b''"] l
  have "list_all is_digit (clean_zip (CStr ''a12 b''))"
    and "clean_zip (CStr ''a12 b'') = digits_only (safe_text (CStr ''a12 b''))"
    by blast+
  with d l show ?thesis by (simp only: simp_thms)
qed

text \<open>
  C1, as stated, fails for \<open>clean_house\<close>: only one trailing \<open>.0\<close> is stripped, so
  \<open>1.0.0\<close> gives \<open>1.0\<close>, and \<open>1.0\<close> gives \<open>1\<close>.
\<close>

theorem clean_house_not_idempotent:
  "clean_house (CStr (clean_house (CStr ''1.0.0''))) \<noteq> clean_house (CStr ''1.0.0'')"
proof -
  have 1: "clean_house (CStr ''1.0.0'') = ''1.0''" by code_simp
  have 2: "clean_house (CStr ''1.0'') = ''1''" by code_simp
  show ?thesis by (simp add: 1 2)
qed

text \<open>
  C1, as amended. \<open>clean_street\<close> and \<open>clean_zip\<close> are idempotent on every cell value.
  \<open>clean_house\<close> gives its own output back exactly when that output ends neither in
  \<open>.0\<close> nor in a blank, as for \<open>1876.0\<close>, which gives \<open>1876\<close>.
\<close>

theorem normalizers_idempotent:
  "clean_street (CStr (clean_street x)) = clean_street x
   \<and> clean_zip (CStr (clean_zip x)) = clean_zip x
   \<and> (clean_house (CStr (clean_house x)) = clean_house x
        \<longleftrightarrow> \<not> ends_with (clean_house x) ''.0'' \<and> \<not> ends_with (clean_house x) '' '')"
proof -
  have "clean_house (CStr (clean_house x)) = clean_house x
        \<longleftrightarrow> \<not> ends_with (clean_house x) ''.0'' \<and> \<not> ends_with (clean_house x) '' ''"
    using clean_house_idem_if[of x] clean_house_idem_only_if[of x] by blast
  with clean_street_idem[of x] clean_zip_idem[of x] show ?thesis by blast
qed

text \<open>The three normalizers on their own outputs for \<open>1876.0\<close>, \<open>1120\<close> and \<open> 19th  ave \<close>.\<close>

theorem normalizers_idempotent_witness:
  "clean_house (CStr ''1876'') = ''1876''
   \<and> clean_zip (CStr ''01120'') = ''01120''
   \<and> clean_street (CStr ''19TH AVE'') = ''19TH AVE''"
proof -
  have h: "clean_house (CStr ''1876.0'') = ''1876''" by code_simp
  have e: "\<not> ends_with ''1876'' ''.0''" "\<not> ends_with ''1876'' '' ''" by code_simp+
  have z: "clean_zip (CStr ''1120'') = ''01120''" by code_simp
  have s: "clean_street (CStr '' 19th  ave '') = ''19TH AVE''" by code_simp
  from normalizers_idempotent[of "CStr ''1876.0''", unfolded h] e
  have 1: "clean_house (CStr ''1876'') = ''1876''" by blast
  from normalizers_idempotent[of "CStr ''1120''", unfolded z]
  have 2: "clean_zip (CStr ''01120'') = ''01120''" by blast
  from normalizers_idempotent[of "CStr '' 19th  ave ''", unfolded s]
  have 3: "clean_street (CStr ''19TH AVE'') = ''19TH AVE''" by blast
  show ?thesis using 1 2 3 by blast
qed

section \<open>Claims on the Column Resolver\<close>

text \<open>
  C5. In the exact-match pass the resolver returns the first header, in the order of the
  table's headers, whose trimmed and case-folded form equals that of some alias; the
  fallback pass decides the column only when no header matches an alias. The aliases of
  the Header Alias Table are not blank, which is the hypothesis: Python's \<open>or\<close> would
  also fall through on a header that is the empty text.
\<close>

theorem exact_match_first_header:
  assumes "\<forall>n\<in>set names. strip n \<noteq> []"
  shows "(case find_exact columns names of
            Some col \<Rightarrow>
              (\<exists>i<length columns. col = columns ! i \<and> alias_match names (columns ! i)
                 \<and> (\<forall>j<i. \<not> alias_match names (columns ! j)))
              \<and> detect_column columns names patterns = Some col
          | None \<Rightarrow>
              (\<forall>col\<in>set columns. \<not> alias_match names col)
              \<and> detect_column columns names patterns = find_regex columns patterns)"
proof (cases "find_exact columns names")
  case None
  then have "\<forall>col\<in>set columns. \<not> alias_match names col"
    by (simp add: find_exact_alias find_None_iff)
  with None show ?thesis by (simp add: detect_column_def)
next
  case (Some col)
  then have "find (alias_match names) columns = Some col" by (simp add: find_exact_alias)
  then have e: "\<exists>i<length columns. alias_match names (columns ! i) \<and> col = columns ! i
      \<and> (\<forall>j<i. \<not> alias_match names (columns ! j))"
    by (simp only: find_Some_iff)
  then have "alias_match names col" by blast
  with assms have "col \<noteq> []" by (rule alias_match_nonempty)
  with Some have d: "detect_column columns names patterns = Some col"
    by (simp add: detect_column_def)
  from e have "\<exists>i<length columns. col = columns ! i \<and> alias_match names (columns ! i)
      \<and> (\<forall>j<i. \<not> alias_match names (columns ! j))"
    by blast
  with d show ?thesis by (simp only: Some option.case simp_thms)
qed

text \<open>A table whose second header matches the alias \<open>ZIP CODE\<close> up to case and blanks.\<close>

theorem exact_match_first_header_witness:
  "strip ''ZIP CODE'' \<noteq> []
   \<and> find_exact [''Name'', '' zip code '', ''ZIP CODE''] [''ZIP CODE''] = Some '' zip code ''
   \<and> detect_column [''Name'', '' zip code '', ''ZIP CODE''] [''ZIP CODE''] [\<lambda>c. True]
       = Some '' zip code ''"
proof -
  have s: "strip ''ZIP CODE'' = ''ZIP CODE''" by code_simp
  then have hyp: "\<forall>n\<in>set [''ZIP CODE'']. strip n \<noteq> []" by simp
  have f: "find_exact [''Name'', '' zip code '', ''ZIP CODE''] [''ZIP CODE''] = Some '' zip code ''"
    by code_simp
  from exact_match_first_header[OF hyp, of "[''Name'', '' zip code '', ''ZIP CODE'']" "[\<lambda>c. True]"]
  have "detect_column [''Name'', '' zip code '', ''ZIP CODE''] [''ZIP CODE''] [\<lambda>c. True]
       = Some '' zip code ''"
    unfolding f by simp
  with s f show ?thesis by simp
qed

text \<open>
  C4. In the fallback pass the resolver returns a header whose key (rank of its first
  matching pattern, negative length of the normalized header) is smallest, in the
  lexicographic order, among the keys of all matching header/pattern pairs, and nothing
  when no pair matches. So a header matching an earlier pattern wins over every header
  matching only later ones, whatever the order of the headers, and among the headers of
  the winning rank a longest normalized header wins.
\<close>

theorem find_regex_smallest_key:
  "(case find_regex columns patterns of
      None \<Rightarrow> (\<forall>col\<in>set columns. \<forall>rank. \<not> matching patterns col rank)
    | Some h \<Rightarrow>
        h \<in> set columns
        \<and> (\<exists>r. matching patterns h r
             \<and> (\<forall>col\<in>set columns. \<forall>rank. matching patterns col rank \<longrightarrow>
                   key_le (pair_key h r) (pair_key col rank)
                   \<and> (r < rank \<or> (r = rank \<and>
                        length (norm_keep_symbols col) \<le> length (norm_keep_symbols h))))))"
proof -
  have u: "key_le (pair_key h r) (pair_key col rank) \<longleftrightarrow>
        (r < rank \<or> (r = rank \<and> length (norm_keep_symbols col) \<le> length (norm_keep_symbols h)))"
    for h r col rank
    by (auto simp: key_le_def key_less_def pair_key_def)
  show ?thesis using good_find_regex[of patterns columns]
    by (auto simp: find_regex_def good_def u split: option.splits)
qed

text \<open>
  Two headers in the unfavourable order: the first matches only the second pattern, the
  second matches the first pattern and is selected.
\<close>

theorem find_regex_smallest_key_witness:
  "find_regex [''Zip'', ''Zip Code (ex)''] [\<lambda>c. take 8 c = ''zip code'', \<lambda>c. take 3 c = ''zip'']
     = Some ''Zip Code (ex)''
   \<and> matching [\<lambda>c. take 8 c = ''zip code'', \<lambda>c. take 3 c = ''zip''] ''Zip'' 1
   \<and> (\<exists>r. matching [\<lambda>c. take 8 c = ''zip code'', \<lambda>c. take 3 c = ''zip''] ''Zip Code (ex)'' r
          \<and> key_le (pair_key ''Zip Code (ex)'' r) (pair_key ''Zip'' 1))"
proof -
  let ?pats = "[\<lambda>c. take 8 c = ''zip code'', \<lambda>c. take 3 c = ''zip'']"
  let ?cols = "[''Zip'', ''Zip Code (ex)'']"
  have n: "norm_keep_symbols ''Zip'' = ''zip''" by code_simp
  have f: "find_regex ?cols ?pats = Some ''Zip Code (ex)''" by code_simp
  have m: "matching ?pats ''Zip'' 1" by (simp add: matching_def n)
  from find_regex_smallest_key[of ?cols ?pats, unfolded f]
  obtain r where r: "matching ?pats ''Zip Code (ex)'' r"
    and a: "\<forall>col\<in>set ?cols. \<forall>rank. matching ?pats col rank \<longrightarrow>
              key_le (pair_key ''Zip Code (ex)'' r) (pair_key col rank)
              \<and> (r < rank \<or> (r = rank \<and>
                   length (norm_keep_symbols col) \<le> length (norm_keep_symbols ''Zip Code (ex)'')))"
    by auto
  from a m have "key_le (pair_key ''Zip Code (ex)'' r) (pair_key ''Zip'' 1)" by simp
  with f m r show ?thesis by blast
qed

section \<open>Lemmas on the row loop\<close>

lemma update_fields_eq:
  "update_fields sd row df_row =
     (write_all (filter (mismatch row) sd) df_row, map fst (filter (mismatch row) sd))"
proof (induction sd arbitrary: df_row)
  case Nil
  show ?case by (simp add: write_all_def)
next
  case (Cons fv sd)
  obtain f v where fv: "fv = (f, v)" by (cases fv)
  show ?case
  proof (cases "mismatch row (f, v)")
    case True
    then have "strip (safe_text (row_get row f)) \<noteq> v" by (simp add: mismatch_def)
    with True show ?thesis unfolding fv
      by (simp add: Cons.IH write_all_def) (simp add: fun_upd_def)
  next
    case False
    then have "strip (safe_text (row_get row f)) = v" by (simp add: mismatch_def)
    with False show ?thesis unfolding fv
      by (simp add: Cons.IH)
  qed
qed

lemma write_all_other: "f \<notin> fst ` set fvs \<Longrightarrow> write_all fvs d f = d f"
  unfolding write_all_def by (induction fvs arbitrary: d) auto

lemma write_all_written:
  "distinct (map fst fvs) \<Longrightarrow> (f, v) \<in> set fvs \<Longrightarrow> write_all fvs d f = Some (CStr v)"
proof (induction fvs arbitrary: d)
  case Nil then show ?case by simp
next
  case (Cons a fvs)
  show ?case
  proof (cases "a = (f, v)")
    case True
    with Cons.prems(1) have "f \<notin> fst ` set fvs" by auto
    then have "write_all fvs (d(f \<mapsto> CStr v)) f = (d(f \<mapsto> CStr v)) f" by (rule write_all_other)
    with True show ?thesis by (simp add: write_all_def)
  next
    case False
    with Cons.prems have "distinct (map fst fvs)" "(f, v) \<in> set fvs" by auto
    then have "write_all fvs (d(fst a \<mapsto> CStr (snd a))) f = Some (CStr v)" by (rule Cons.IH)
    then show ?thesis by (simp add: write_all_def)
  qed
qed

lemma update_fields_written:
  assumes "update_fields sd row df_row = (r, updated)" "distinct (map fst sd)"
    "(f, v) \<in> set sd" "f \<in> set updated"
  shows "r f = Some (CStr v)"
proof -
  let ?w = "filter (mismatch row) sd"
  from assms(1) have r: "r = write_all ?w df_row" and u: "updated = map fst ?w"
    by (simp_all add: update_fields_eq)
  from assms(4) u obtain v' where m: "(f, v') \<in> set ?w" by auto
  have d: "distinct (map fst ?w)" using assms(2) by (rule distinct_map_filter)
  from m have "(f, v') \<in> set sd" by simp
  with assms(2,3) have "v' = v" by (meson eq_key_imp_eq_value)
  with m d show ?thesis unfolding r by (simp add: write_all_written)
qed

lemma update_fields_untouched:
  assumes "update_fields sd row df_row = (r, updated)" "f \<notin> set updated"
  shows "r f = df_row f"
proof -
  from assms(1) have r: "r = write_all (filter (mismatch row) sd) df_row"
    and u: "updated = map fst (filter (mismatch row) sd)"
    by (simp_all add: update_fields_eq)
  from assms(2) u have "f \<notin> fst ` set (filter (mismatch row) sd)" by simp
  then show ?thesis unfolding r by (rule write_all_other)
qed

lemma update_fields_none:
  assumes "update_fields sd row df_row = (r, [])"
  shows "r = df_row \<and> (\<forall>fv\<in>set sd. strip (safe_text (row_get row (fst fv))) = snd fv)"
proof -
  have "update_fields sd row df_row =
      (write_all (filter (mismatch row) sd) df_row, map fst (filter (mismatch row) sd))"
    by (rule update_fields_eq)
  with assms have "(r, []) =
      (write_all (filter (mismatch row) sd) df_row, map fst (filter (mismatch row) sd))"
    by (rule subst)
  then have r: "r = write_all (filter (mismatch row) sd) df_row"
    and "[] = map fst (filter (mismatch row) sd)"
    by (simp_all only: prod.inject)
  then have e: "filter (mismatch row) sd = []" by (simp only: map_is_Nil_conv Nil_is_map_conv)
  from r have "r = df_row" unfolding e by (simp add: write_all_def)
  moreover from e have "\<forall>fv\<in>set sd. \<not> mismatch row fv" by (simp add: filter_empty_conv)
  ultimately show ?thesis by (simp add: mismatch_def)
qed

text \<open>
  The outcomes of one turn of the loop of script2.py: fields written and no entry, or
  nothing written and the row as it was, with no entry or with exactly one. When nothing
  is written for a row that reached the comparison, all six fields matched.
\<close>

lemma process_row_outcomes:
  assumes "process_row house_col street_col zip_col index row resp invalid_rows = (r, invalid_rows', updated)"
  shows "(updated \<noteq> [] \<and> invalid_rows' = invalid_rows)
       \<or> (updated = [] \<and> r = row \<and> invalid_rows' = invalid_rows)
       \<or> (updated = [] \<and> r = row \<and> (\<exists>e. invalid_rows' = invalid_rows @ [e]))"
proof (cases "updated = []")
  case False
  with assms have "invalid_rows' = invalid_rows"
    by (auto simp: process_row_def Let_def split: if_splits site.splits prod.splits)
  with False show ?thesis by simp
next
  case True
  with assms have "(r = row \<and> invalid_rows' = invalid_rows) \<or> (r = row \<and> (\<exists>e. invalid_rows' = invalid_rows @ [e]))"
    by (auto simp: process_row_def Let_def split: if_splits site.splits prod.splits dest: update_fields_none)
  with True show ?thesis by blast
qed

lemma process_row_no_write_matches:
  assumes "process_row house_col street_col zip_col index row (Loaded p) invalid_rows = (r, invalid_rows', [])"
    and "clean_house (row_get row house_col) \<noteq> []" "clean_street (row_get row street_col) \<noteq> []"
    and "clean_zip (row_get row zip_col) \<noteq> []" "message_text p = []"
    and "\<not> list_all (\<lambda>v. v = []) (map snd (site_data p))"
  shows "invalid_rows' = invalid_rows \<and> r = row
       \<and> (\<forall>fv\<in>set (site_data p). strip (safe_text (row_get row (fst fv))) = snd fv)"
proof -
  from assms have u: "update_fields (site_data p) row row = (r, [])" and i: "invalid_rows' = invalid_rows"
    by (auto simp: process_row_def Let_def split: prod.splits)
  from update_fields_none[OF u] i show ?thesis by blast
qed

lemma outcome_v1_simps:
  "outcome_v1 (Inl (k, r, u)) = (r, u)" "outcome_v1 (Inr (r, u)) = (r, u)"
  by (simp_all add: outcome_v1_def)

lemma update_fields_v1_eq:
  "outcome_v1 (update_fields_v1 sd row df_row) =
     (write_all (filter (mismatch_v1 row) (takeWhile (\<lambda>fv. row (fst fv) \<noteq> None) sd)) df_row,
      map fst (filter (mismatch_v1 row) (takeWhile (\<lambda>fv. row (fst fv) \<noteq> None) sd)))"
proof (induction sd arbitrary: df_row)
  case Nil
  show ?case by (simp add: write_all_def outcome_v1_def)
next
  case (Cons fv sd)
  obtain f v where fv: "fv = (f, v)" by (cases fv)
  show ?case
  proof (cases "row f")
    case None
    then show ?thesis unfolding fv by (simp add: write_all_def outcome_v1_def)
  next
    case (Some c)
    let ?e = "if \<not> isna c then zfill (length v) (py_str c) else ''''"
    show ?thesis
    proof (cases "?e = v")
      case True
      then have "\<not> mismatch_v1 row (f, v)" using Some
        by (auto simp: mismatch_v1_def split: if_splits)
      with True Some show ?thesis unfolding fv by (simp add: Cons.IH Let_def)
    next
      case False
      then have m: "mismatch_v1 row (f, v)" using Some
        by (auto simp: mismatch_v1_def split: if_splits)
      let ?rest = "update_fields_v1 sd row (df_row(f \<mapsto> CStr v))"
      have "outcome_v1 (update_fields_v1 ((f, v) # sd) row df_row) =
            (fst (outcome_v1 ?rest), f # snd (outcome_v1 ?rest))"
        using False Some by (simp add: Let_def outcome_v1_def split: sum.splits prod.splits)
      also have "outcome_v1 ?rest =
         (write_all (filter (mismatch_v1 row) (takeWhile (\<lambda>fv. row (fst fv) \<noteq> None) sd)) (df_row(f \<mapsto> CStr v)),
          map fst (filter (mismatch_v1 row) (takeWhile (\<lambda>fv. row (fst fv) \<noteq> None) sd)))"
        by (rule Cons.IH)
      finally show ?thesis unfolding fv using m Some by (simp add: write_all_def)
    qed
  qed
qed

lemma distinct_fst_takeWhile: "distinct (map fst sd) \<Longrightarrow> distinct (map fst (takeWhile P sd))"
  by (induction sd) (auto dest: set_takeWhileD)

lemma update_fields_v1_written:
  assumes "outcome_v1 (update_fields_v1 sd row df_row) = (r, updated)" "distinct (map fst sd)"
    "(f, v) \<in> set sd" "f \<in> set updated"
  shows "r f = Some (CStr v)"
proof -
  let ?w = "filter (mismatch_v1 row) (takeWhile (\<lambda>fv. row (fst fv) \<noteq> None) sd)"
  have "(r, updated) = (write_all ?w df_row, map fst ?w)"
    using assms(1) by (simp only: update_fields_v1_eq)
  then have r: "r = write_all ?w df_row" and u: "updated = map fst ?w"
    by (simp_all only: prod.inject)
  from assms(4) u obtain v' where m: "(f, v') \<in> set ?w" by auto
  have d: "distinct (map fst ?w)"
    using assms(2) by (intro distinct_map_filter distinct_fst_takeWhile)
  from m have "(f, v') \<in> set sd" by (auto dest: set_takeWhileD)
  with assms(2,3) have "v' = v" by (meson eq_key_imp_eq_value)
  with m d show ?thesis unfolding r by (simp add: write_all_written)
qed

lemma split_first_no_sep: "sep \<notin> set (split_first sep s)"
  by (auto simp: split_first_def dest: set_takeWhileD)

lemma split_first_all: "sep \<notin> set s \<Longrightarrow> split_first sep s = s"
  by (auto simp: split_first_def takeWhile_eq_all_conv)

lemma distinct_site_data: "distinct (map fst (site_data p))" "distinct (map fst (site_data_v1 p))"
  by (simp_all add: site_data_def site_data_v1_def)

lemma process_row_written:
  assumes "process_row house_col street_col zip_col index row resp invalid_rows = (r, invalid_rows', updated)"
    and "f \<in> set updated"
  shows "\<exists>p v. resp = Loaded p \<and> (f, v) \<in> set (site_data p) \<and> r f = Some (CStr v)"
proof -
  from assms obtain p where p: "resp = Loaded p"
    and u: "update_fields (site_data p) row row = (r, updated)"
    by (auto simp: process_row_def Let_def split: if_splits site.splits prod.splits)
  from u have "updated = map fst (filter (mismatch row) (site_data p))"
    by (simp add: update_fields_eq)
  with assms(2) obtain v where v: "(f, v) \<in> set (site_data p)" by auto
  from update_fields_written[OF u distinct_site_data(1) v assms(2)] p v show ?thesis by blast
qed

lemma process_row_v1_written:
  assumes "process_row_v1 index row resp invalid_rows vs = Inr (r, invalid_rows', updated, vs')"
    and "f \<in> set updated"
  shows "\<exists>p v. resp = Loaded p \<and> (f, v) \<in> set (site_data_v1 p) \<and> r f = Some (CStr v)"
proof -
  from assms obtain p where p: "resp = Loaded p"
    and u: "outcome_v1 (update_fields_v1 (site_data_v1 p) row row) = (r, updated)"
    by (auto simp: process_row_v1_def handler_v1_def Let_def outcome_v1_def
        split: if_splits site.splits prod.splits option.splits sum.splits)
  have "(r, updated) = (write_all (filter (mismatch_v1 row) (takeWhile (\<lambda>fv. row (fst fv) \<noteq> None) (site_data_v1 p))) row,
      map fst (filter (mismatch_v1 row) (takeWhile (\<lambda>fv. row (fst fv) \<noteq> None) (site_data_v1 p))))"
    using u by (simp only: update_fields_v1_eq)
  then have "updated = map fst (filter (mismatch_v1 row) (takeWhile (\<lambda>fv. row (fst fv) \<noteq> None) (site_data_v1 p)))"
    by (simp only: prod.inject)
  with assms(2) obtain v where v: "(f, v) \<in> set (site_data_v1 p)" by (auto dest: set_takeWhileD)
  from update_fields_v1_written[OF u distinct_site_data(2) v assms(2)] p v show ?thesis by blast
qed

text \<open>What a compared row leaves in a column, written or not.\<close>

lemma dropWhile_keeps: "c \<in> set xs \<Longrightarrow> \<not> P c \<Longrightarrow> c \<in> set (dropWhile P xs)"
  by (induction xs) auto

lemma strip_keeps: "c \<in> set s \<Longrightarrow> \<not> is_space c \<Longrightarrow> c \<in> set (strip s)"
proof -
  assume c: "c \<in> set s" and n: "\<not> is_space c"
  from c n have "c \<in> set (dropWhile is_space s)" by (rule dropWhile_keeps)
  then have "c \<in> set (rev (dropWhile is_space s))" by simp
  then have "c \<in> set (dropWhile is_space (rev (dropWhile is_space s)))" using n by (rule dropWhile_keeps)
  then show ?thesis by (simp add: strip_def)
qed

lemma slash_not_space: "\<not> is_space CHR ''/''"
  by (simp add: is_space_def whitespace_def)

lemma zfill_keeps: "c \<in> set s \<Longrightarrow> c \<in> set (zfill w s)"
  by (auto simp: zfill_def split: list.splits)

lemma isna_no_slash: "isna c \<Longrightarrow> CHR ''/'' \<notin> set (py_str c)"
  by (cases c rule: py_str.cases) simp_all

lemma update_fields_v1_Inr:
  "update_fields_v1 sd row df_row = Inr (r, updated) \<Longrightarrow>
     (\<forall>fv\<in>set sd. row (fst fv) \<noteq> None)
     \<and> r = write_all (filter (mismatch_v1 row) sd) df_row
     \<and> updated = map fst (filter (mismatch_v1 row) sd)"
proof (induction sd arbitrary: df_row r updated)
  case Nil
  then show ?case by (simp add: write_all_def)
next
  case (Cons fv sd)
  obtain f v where fv: "fv = (f, v)" by (cases fv)
  from Cons.prems obtain c where c: "row f = Some c"
    unfolding fv by (cases "row f") simp_all
  let ?e = "if \<not> isna c then zfill (length v) (py_str c) else ''''"
  show ?case
  proof (cases "?e = v")
    case True
    then have m: "\<not> mismatch_v1 row (f, v)" using c
      by (auto simp: mismatch_v1_def split: if_splits)
    from Cons.prems True c have "update_fields_v1 sd row df_row = Inr (r, updated)"
      unfolding fv by (simp add: Let_def)
    from Cons.IH[OF this] m c show ?thesis unfolding fv by simp
  next
    case False
    then have m: "mismatch_v1 row (f, v)" using c
      by (auto simp: mismatch_v1_def split: if_splits)
    from Cons.prems False c obtain u where
      rest: "update_fields_v1 sd row (df_row(f \<mapsto> CStr v)) = Inr (r, u)" and u: "updated = f # u"
      unfolding fv by (auto simp: Let_def split: sum.splits prod.splits)
    from Cons.IH[OF rest] m c u show ?thesis unfolding fv
      by (simp add: write_all_def) (simp add: fun_upd_def)
  qed
qed

lemma compared_field:
  assumes d: "distinct (map fst sd)" and fv: "(f, v) \<in> set sd"
    and r: "r = write_all (filter P sd) df_row" and u: "updated = map fst (filter P sd)"
  shows "(P (f, v) \<longrightarrow> f \<in> set updated \<and> r f = Some (CStr v))
       \<and> (\<not> P (f, v) \<longrightarrow> f \<notin> set updated \<and> r f = df_row f)"
proof (intro conjI impI)
  assume p: "P (f, v)"
  with fv have m: "(f, v) \<in> set (filter P sd)" by simp
  then show "f \<in> set updated" unfolding u by force
  have "distinct (map fst (filter P sd))" using d by (rule distinct_map_filter)
  then show "r f = Some (CStr v)" unfolding r using m by (rule write_all_written)
next
  assume n: "\<not> P (f, v)"
  show "f \<notin> set updated"
  proof
    assume "f \<in> set updated"
    then obtain v' where m: "(f, v') \<in> set (filter P sd)" unfolding u by auto
    then have "(f, v') \<in> set sd" by simp
    with d fv have "v' = v" by (meson eq_key_imp_eq_value)
    with m n show False by simp
  qed
  then have "f \<notin> fst ` set (filter P sd)" unfolding u by simp
  then show "r f = df_row f" unfolding r by (rule write_all_other)
qed

lemma process_row_compared:
  assumes "process_row house_col street_col zip_col index row (Loaded p) invalid_rows = (r, invalid_rows, updated)"
    and "clean_house (row_get row house_col) \<noteq> []" "clean_street (row_get row street_col) \<noteq> []"
    and "clean_zip (row_get row zip_col) \<noteq> []"
  shows "update_fields (site_data p) row row = (r, updated)"
  using assms by (auto simp: process_row_def Let_def split: if_splits prod.splits)

lemma process_row_v1_compared:
  assumes "process_row_v1 index row (Loaded p) invalid_rows vs = Inr (r, invalid_rows, updated, vs')"
    and "row ''HOUSE #'' = Some hc" "row ''STREET NAME'' = Some sc" "row ''ZIP CODE'' = Some zc"
    and "strip (py_str hc) \<noteq> []" "strip (py_str sc) \<noteq> []" "strip (py_str zc) \<noteq> []"
  shows "update_fields_v1 (site_data_v1 p) row row = Inr (r, updated)"
  using assms
  by (auto simp: process_row_v1_def handler_v1_def Let_def
      split: if_splits prod.splits sum.splits option.splits)

section \<open>Lemmas on the output path\<close>

lemma digit_char_inj: "a < 10 \<Longrightarrow> b < 10 \<Longrightarrow> digit_char a = digit_char b \<Longrightarrow> a = b"
proof -
  assume a: "a < 10" and b: "b < 10" and e: "digit_char a = digit_char b"
  have d: "distinct ''0123456789''" by simp
  have "a < length ''0123456789''" "b < length ''0123456789''" using a b by simp_all
  with d e show "a = b" unfolding digit_char_def by (simp only: nth_eq_iff_index_eq)
qed

lemma str_nat_small: "n < 10 \<Longrightarrow> str_nat n = [digit_char n]"
  by (subst str_nat.simps) simp

lemma str_nat_big: "\<not> n < 10 \<Longrightarrow> str_nat n = str_nat (n div 10) @ [digit_char (n mod 10)]"
  by (subst str_nat.simps) simp

lemma str_nat_not_Nil: "str_nat n \<noteq> []"
  by (cases "n < 10") (simp_all add: str_nat_small str_nat_big)

lemma str_nat_inj: "str_nat m = str_nat n \<Longrightarrow> m = n"
proof (induction m arbitrary: n rule: str_nat.induct)
  case (1 m)
  show ?case
  proof (cases "m < 10")
    case True
    show ?thesis
    proof (cases "n < 10")
      case n: True
      from "1.prems" True n have "digit_char m = digit_char n" by (simp add: str_nat_small)
      with True n show ?thesis by (rule digit_char_inj)
    next
      case n: False
      from "1.prems" True n have "[digit_char m] = str_nat (n div 10) @ [digit_char (n mod 10)]"
        by (simp add: str_nat_small str_nat_big)
      then have "str_nat (n div 10) = []" by simp
      with str_nat_not_Nil show ?thesis by blast
    qed
  next
    case False
    show ?thesis
    proof (cases "n < 10")
      case n: True
      from "1.prems" False n have "str_nat (m div 10) @ [digit_char (m mod 10)] = [digit_char n]"
        by (simp add: str_nat_small str_nat_big)
      then have "str_nat (m div 10) = []" by simp
      with str_nat_not_Nil show ?thesis by blast
    next
      case n: False
      from "1.prems" False n
      have "str_nat (m div 10) @ [digit_char (m mod 10)] = str_nat (n div 10) @ [digit_char (n mod 10)]"
        by (simp add: str_nat_big)
      then have q: "str_nat (m div 10) = str_nat (n div 10)"
        and d: "digit_char (m mod 10) = digit_char (n mod 10)" by simp_all
      from "1.IH"[OF False q] have "m div 10 = n div 10" .
      moreover have "m mod 10 = n mod 10" using d by (intro digit_char_inj) simp_all
      ultimately show ?thesis by (metis div_mult_mod_eq)
    qed
  qed
qed

lemma numbered_path_inj: "numbered_path b s i = numbered_path b s j \<Longrightarrow> i = j"
  by (simp add: numbered_path_def str_nat_inj)

lemma some_number_free:
  assumes "finite {p. exists p}"
  shows "\<exists>k\<ge>i. \<not> exists (numbered_path b s k)"
proof (rule ccontr)
  assume "\<not> (\<exists>k\<ge>i. \<not> exists (numbered_path b s k))"
  then have "numbered_path b s ` {i..} \<subseteq> {p. exists p}" by auto
  with assms have "finite (numbered_path b s ` {i..})" by (rule rev_finite_subset)
  moreover have "inj_on (numbered_path b s) {i..}"
    by (rule inj_onI) (rule numbered_path_inj)
  ultimately have "finite {i..}" by (rule finite_imageD)
  then show False by (simp add: infinite_Ici)
qed

lemma free_path_reaches:
  assumes "\<not> exists (numbered_path b s k)" "i \<le> k"
    "\<forall>j. i \<le> j \<and> j < k \<longrightarrow> exists (numbered_path b s j)" "exists p"
  shows "free_path exists b s p i = Some (numbered_path b s k)"
  using assms
proof (induction "k - i" arbitrary: i p)
  case 0
  then have "i = k" by simp
  with "0.prems"(1,4) show ?case
    by (subst free_path.simps, simp, subst free_path.simps, simp)
next
  case (Suc d)
  then have lt: "i < k" by simp
  with Suc.prems(3) have e: "exists (numbered_path b s i)" by simp
  have "free_path exists b s (numbered_path b s i) (i + 1) = Some (numbered_path b s k)"
  proof (rule Suc.hyps(1))
    show "d = k - (i + 1)" using Suc.hyps(2) by simp
    show "\<not> exists (numbered_path b s k)" by (rule Suc.prems(1))
    show "i + 1 \<le> k" using lt by simp
    show "\<forall>j. i + 1 \<le> j \<and> j < k \<longrightarrow> exists (numbered_path b s j)" using Suc.prems(3) by simp
    show "exists (numbered_path b s i)" by (rule e)
  qed
  with Suc.prems(4) show ?case by (subst free_path.simps) simp
qed

lemma str_nat_1_2: "str_nat (Suc 0) = ''1''" "str_nat 2 = ''2''"
  using str_nat_small[of "Suc 0"] str_nat_small[of 2] by (simp_all add: digit_char_def)

section \<open>Claims on the row loop and the output path\<close>

text \<open>
  C6. A row with address data for which the page comes back without a message and with
  all six scraped district texts empty gets exactly one entry in \<open>invalid_rows\<close>, with
  the reason \<open>No polling info returned\<close>, and the row of the table stays as it was:
  no output column is written. This holds in both scripts.
\<close>

theorem empty_scrape_is_recorded:
  "(clean_house (row_get row house_col) \<noteq> []
      \<and> clean_street (row_get row street_col) \<noteq> []
      \<and> clean_zip (row_get row zip_col) \<noteq> []
      \<and> message_text p = []
      \<and> safe_get_text (assembly_district p) '''' = []
      \<and> safe_get_text (election_district p) '''' = []
      \<and> safe_get_text (congress_district p) '''' = []
      \<and> safe_get_text (senate_district p) '''' = []
      \<and> safe_get_text (council_district p) '''' = []
      \<and> safe_get_text (judicial_district p) '''' = []
    \<longrightarrow> process_row house_col street_col zip_col index row (Loaded p) invalid_rows =
          (row,
           invalid_rows @
             [\<lparr>ir_row = index, ir_house = clean_house (row_get row house_col),
               ir_street = clean_street (row_get row street_col),
               ir_zip = clean_zip (row_get row zip_col),
               ir_reason = ''No polling info returned''\<rparr>],
           []))
   \<and> (row ''HOUSE #'' = Some hc \<and> row ''STREET NAME'' = Some sc \<and> row ''ZIP CODE'' = Some zc
      \<and> strip (py_str hc) \<noteq> [] \<and> strip (py_str sc) \<noteq> [] \<and> strip (py_str zc) \<noteq> []
      \<and> message_text p = []
      \<and> safe_get_text_v1 (assembly_district p) '''' = []
      \<and> safe_get_text_v1 (election_district p) '''' = []
      \<and> safe_get_text_v1 (congress_district p) '''' = []
      \<and> safe_get_text_v1 (senate_district p) '''' = []
      \<and> safe_get_text_v1 (council_district p) '''' = []
      \<and> safe_get_text_v1 (judicial_district p) '''' = []
    \<longrightarrow> process_row_v1 index row (Loaded p) invalid_rows vs =
          Inr (row,
               invalid_rows @
                 [\<lparr>ir_row = index, ir_house = strip (py_str hc), ir_street = strip (py_str sc),
                   ir_zip = strip (py_str zc), ir_reason = ''No polling info returned''\<rparr>],
               [],
               vs\<lparr>house_number := Some (strip (py_str hc)),
                  street_name := Some (strip (py_str sc)),
                  zip_code := Some (strip (py_str zc))\<rparr>))"
proof (intro conjI impI)
  assume a: "clean_house (row_get row house_col) \<noteq> []
      \<and> clean_street (row_get row street_col) \<noteq> []
      \<and> clean_zip (row_get row zip_col) \<noteq> []
      \<and> message_text p = []
      \<and> safe_get_text (assembly_district p) '''' = []
      \<and> safe_get_text (election_district p) '''' = []
      \<and> safe_get_text (congress_district p) '''' = []
      \<and> safe_get_text (senate_district p) '''' = []
      \<and> safe_get_text (council_district p) '''' = []
      \<and> safe_get_text (judicial_district p) '''' = []"
  then have m: "message_text p = []" by blast
  from a have e: "list_all (\<lambda>v. v = []) (map snd (site_data p))"
    by (simp add: site_data_def split_first_def)
  from a m e show "process_row house_col street_col zip_col index row (Loaded p) invalid_rows =
          (row,
           invalid_rows @
             [\<lparr>ir_row = index, ir_house = clean_house (row_get row house_col),
               ir_street = clean_street (row_get row street_col),
               ir_zip = clean_zip (row_get row zip_col),
               ir_reason = ''No polling info returned''\<rparr>],
           [])"
    by (simp add: process_row_def Let_def invalid_def)
next
  assume a: "row ''HOUSE #'' = Some hc \<and> row ''STREET NAME'' = Some sc \<and> row ''ZIP CODE'' = Some zc
      \<and> strip (py_str hc) \<noteq> [] \<and> strip (py_str sc) \<noteq> [] \<and> strip (py_str zc) \<noteq> []
      \<and> message_text p = []
      \<and> safe_get_text_v1 (assembly_district p) '''' = []
      \<and> safe_get_text_v1 (election_district p) '''' = []
      \<and> safe_get_text_v1 (congress_district p) '''' = []
      \<and> safe_get_text_v1 (senate_district p) '''' = []
      \<and> safe_get_text_v1 (council_district p) '''' = []
      \<and> safe_get_text_v1 (judicial_district p) '''' = []"
  then have m: "message_text p = []" by blast
  from a have e: "list_all (\<lambda>v. v = []) (map snd (site_data_v1 p))"
    by (simp add: site_data_v1_def split_first_def)
  from a m e show "process_row_v1 index row (Loaded p) invalid_rows vs =
          Inr (row,
               invalid_rows @
                 [\<lparr>ir_row = index, ir_house = strip (py_str hc), ir_street = strip (py_str sc),
                   ir_zip = strip (py_str zc), ir_reason = ''No polling info returned''\<rparr>],
               [],
               vs\<lparr>house_number := Some (strip (py_str hc)),
                  street_name := Some (strip (py_str sc)),
                  zip_code := Some (strip (py_str zc))\<rparr>)"
    by (simp add: process_row_v1_def Let_def invalid_def)
qed

text \<open>Both scripts on a row with address data and a page without district text.\<close>

theorem empty_scrape_is_recorded_witness:
  "process_row ''HOUSE #'' ''STREET NAME'' ''ZIP CODE'' 3 sheet_row (Loaded blank_page) [] =
     (sheet_row,
      [\<lparr>ir_row = 3, ir_house = ''1876'', ir_street = ''19TH AVE'', ir_zip = ''01120'',
        ir_reason = ''No polling info returned''\<rparr>],
      [])
   \<and> process_row_v1 3 sheet_row (Loaded blank_page) [] unbound =
     Inr (sheet_row,
          [\<lparr>ir_row = 3, ir_house = ''1876.0'', ir_street = ''19th  ave'', ir_zip = ''1120'',
            ir_reason = ''No polling info returned''\<rparr>],
          [],
          \<lparr>house_number = Some ''1876.0'', street_name = Some ''19th  ave'',
            zip_code = Some ''1120''\<rparr>)"
proof -
  have h: "clean_house (row_get sheet_row ''HOUSE #'') = ''1876''" by code_simp
  have s: "clean_street (row_get sheet_row ''STREET NAME'') = ''19TH AVE''" by code_simp
  have z: "clean_zip (row_get sheet_row ''ZIP CODE'') = ''01120''" by code_simp
  have m: "message_text blank_page = []" by code_simp
  have e: "safe_get_text (assembly_district blank_page) '''' = []"
    "safe_get_text (election_district blank_page) '''' = []"
    "safe_get_text (congress_district blank_page) '''' = []"
    "safe_get_text (senate_district blank_page) '''' = []"
    "safe_get_text (council_district blank_page) '''' = []"
    "safe_get_text (judicial_district blank_page) '''' = []"
    by code_simp+
  have e1: "safe_get_text_v1 (assembly_district blank_page) '''' = []"
    "safe_get_text_v1 (election_district blank_page) '''' = []"
    "safe_get_text_v1 (congress_district blank_page) '''' = []"
    "safe_get_text_v1 (senate_district blank_page) '''' = []"
    "safe_get_text_v1 (council_district blank_page) '''' = []"
    "safe_get_text_v1 (judicial_district blank_page) '''' = []"
    by code_simp+
  have c: "sheet_row ''HOUSE #'' = Some (CStr ''1876.0'')"
    "sheet_row ''STREET NAME'' = Some (CStr ''19th  ave'')"
    "sheet_row ''ZIP CODE'' = Some (CStr ''1120'')"
    by (simp_all add: sheet_row_def)
  have t: "strip ''1876.0'' = ''1876.0''" "strip ''19th  ave'' = ''19th  ave''" "strip ''1120'' = ''1120''"
    by code_simp+
  note inst = empty_scrape_is_recorded[of sheet_row "''HOUSE #''" "''STREET NAME''" "''ZIP CODE''"
      blank_page 3 "[]" "CStr ''1876.0''" "CStr ''19th  ave''" "CStr ''1120''" unbound]
  from inst h s z m e
  have 1: "process_row ''HOUSE #'' ''STREET NAME'' ''ZIP CODE'' 3 sheet_row (Loaded blank_page) [] =
     (sheet_row,
      [\<lparr>ir_row = 3, ir_house = ''1876'', ir_street = ''19TH AVE'', ir_zip = ''01120'',
        ir_reason = ''No polling info returned''\<rparr>],
      [])"
    by simp
  from inst c t m e1
  have 2: "process_row_v1 3 sheet_row (Loaded blank_page) [] unbound =
     Inr (sheet_row,
          [\<lparr>ir_row = 3, ir_house = ''1876.0'', ir_street = ''19th  ave'', ir_zip = ''1120'',
            ir_reason = ''No polling info returned''\<rparr>],
          [],
          \<lparr>house_number = Some ''1876.0'', street_name = Some ''19th  ave'',
            zip_code = Some ''1120''\<rparr>)"
    by (simp add: unbound_def)
  from 1 2 show ?thesis by (rule conjI)
qed

text \<open>
  C9, as stated, fails for a column that already matches. The scraped election district
  \<open>012/03\<close> gives the value \<open>012\<close>; script2.py compares it with the trimmed cell, so
  the cell \<open> 012 \<close> (and \<open> 65 \<close> for \<open>AD\<close>) is left with its blanks; script.py
  compares it with the cell padded with zeros to the same length, so the cell \<open>12\<close> is
  left as \<open>12\<close>. Neither column then holds the scraped text.
\<close>

theorem stored_ed_differs_from_scraped_prefix:
  "map_of (site_data result_page) ''ED'' = Some ''012''
   \<and> (case process_row ''HOUSE #'' ''STREET NAME'' ''ZIP CODE'' 0 sheet_row_blanks (Loaded result_page) [] of
        (r, invalid_rows', updated) \<Rightarrow>
          r ''ED'' = Some (CStr '' 012 '') \<and> r ''AD'' = Some (CStr '' 65 '')
          \<and> updated = [] \<and> invalid_rows' = [])
   \<and> map_of (site_data_v1 result_page) ''ED'' = Some ''012''
   \<and> (case process_row_v1 0 sheet_row_short (Loaded result_page) [] unbound of
        Inl e \<Rightarrow> False
      | Inr (r, invalid_rows', updated, vs) \<Rightarrow>
          r ''ED'' = Some (CStr ''12'') \<and> updated = [] \<and> invalid_rows' = [])"
  by code_simp

text \<open>
  C9, as amended. In both scripts the value of \<open>site_data\<close> for \<open>ED\<close>, which is what
  the row loop compares and writes, is the scraped election-district text up to its first
  slash, all of it when it has no slash, and the other five values are the scraped texts
  themselves. For a row that is compared (not skipped, and not recorded in
  \<open>invalid_rows\<close>), each of the six columns afterwards either was written and holds
  exactly its \<open>site_data\<close> value, or was left as it was because its cell matched that
  value under the script's comparison: the trimmed text of the cell in script2.py, the
  text of the cell padded with zeros to the length of the value (empty for an absent
  cell) in script.py. In both cases the text of the \<open>ED\<close> cell holds no slash.
\<close>

theorem district_columns_after_comparison:
  "site_data p =
     [(''AD'', safe_get_text (assembly_district p) ''''),
      (''ED'', takeWhile (\<lambda>c. c \<noteq> CHR ''/'') (safe_get_text (election_district p) '''')),
      (''Cong D'', safe_get_text (congress_district p) ''''),
      (''SD'', safe_get_text (senate_district p) ''''),
      (''Council D'', safe_get_text (council_district p) ''''),
      (''JD'', safe_get_text (judicial_district p) '''')]
   \<and> site_data_v1 p =
     [(''AD'', safe_get_text_v1 (assembly_district p) ''''),
      (''ED'', takeWhile (\<lambda>c. c \<noteq> CHR ''/'') (safe_get_text_v1 (election_district p) '''')),
      (''Cong D'', safe_get_text_v1 (congress_district p) ''''),
      (''SD'', safe_get_text_v1 (senate_district p) ''''),
      (''Council D'', safe_get_text_v1 (council_district p) ''''),
      (''JD'', safe_get_text_v1 (judicial_district p) '''')]
   \<and> ((''ED'', w) \<in> set (site_data p) \<or> (''ED'', w) \<in> set (site_data_v1 p) \<longrightarrow> CHR ''/'' \<notin> set w)
   \<and> (CHR ''/'' \<notin> set (safe_get_text (election_district p) '''') \<longrightarrow>
        map_of (site_data p) ''ED'' = Some (safe_get_text (election_district p) ''''))
   \<and> (CHR ''/'' \<notin> set (safe_get_text_v1 (election_district p) '''') \<longrightarrow>
        map_of (site_data_v1 p) ''ED'' = Some (safe_get_text_v1 (election_district p) ''''))
   \<and> (process_row house_col street_col zip_col index row (Loaded p) invalid_rows = (r, invalid_rows, updated)
        \<and> clean_house (row_get row house_col) \<noteq> []
        \<and> clean_street (row_get row street_col) \<noteq> []
        \<and> clean_zip (row_get row zip_col) \<noteq> []
        \<and> (f, v) \<in> set (site_data p)
      \<longrightarrow> ((f \<in> set updated \<and> r f = Some (CStr v))
             \<or> (f \<notin> set updated \<and> r f = row f \<and> strip (safe_text (row_get row f)) = v))
          \<and> CHR ''/'' \<notin> set (safe_text (row_get r ''ED'')))
   \<and> (process_row_v1 index row (Loaded p) invalid_rows vs = Inr (r1, invalid_rows, updated1, vs1)
        \<and> row ''HOUSE #'' = Some hc \<and> row ''STREET NAME'' = Some sc \<and> row ''ZIP CODE'' = Some zc
        \<and> strip (py_str hc) \<noteq> [] \<and> strip (py_str sc) \<noteq> [] \<and> strip (py_str zc) \<noteq> []
        \<and> (f, v) \<in> set (site_data_v1 p)
      \<longrightarrow> ((f \<in> set updated1 \<and> r1 f = Some (CStr v))
             \<or> (f \<notin> set updated1 \<and> r1 f = row f
                \<and> (\<exists>c. row f = Some c
                       \<and> (if \<not> isna c then zfill (length v) (py_str c) else '''') = v)))
          \<and> (\<exists>c. r1 ''ED'' = Some c \<and> CHR ''/'' \<notin> set (py_str c)))"
proof -
  have a: "site_data p =
     [(''AD'', safe_get_text (assembly_district p) ''''),
      (''ED'', takeWhile (\<lambda>c. c \<noteq> CHR ''/'') (safe_get_text (election_district p) '''')),
      (''Cong D'', safe_get_text (congress_district p) ''''),
      (''SD'', safe_get_text (senate_district p) ''''),
      (''Council D'', safe_get_text (council_district p) ''''),
      (''JD'', safe_get_text (judicial_district p) '''')]"
    by (simp add: site_data_def split_first_def)
  have b: "site_data_v1 p =
     [(''AD'', safe_get_text_v1 (assembly_district p) ''''),
      (''ED'', takeWhile (\<lambda>c. c \<noteq> CHR ''/'') (safe_get_text_v1 (election_district p) '''')),
      (''Cong D'', safe_get_text_v1 (congress_district p) ''''),
      (''SD'', safe_get_text_v1 (senate_district p) ''''),
      (''Council D'', safe_get_text_v1 (council_district p) ''''),
      (''JD'', safe_get_text_v1 (judicial_district p) '''')]"
    by (simp add: site_data_v1_def split_first_def)
  have ed: "CHR ''/'' \<notin> set x" if "(''ED'', x) \<in> set (site_data q)" for q x
    using that by (auto simp: site_data_def split_first_no_sep)
  have ed1: "CHR ''/'' \<notin> set x" if "(''ED'', x) \<in> set (site_data_v1 q)" for q x
    using that by (auto simp: site_data_v1_def split_first_no_sep)
  have c: "(''ED'', w) \<in> set (site_data p) \<or> (''ED'', w) \<in> set (site_data_v1 p) \<longrightarrow> CHR ''/'' \<notin> set w"
    using ed ed1 by blast
  have d: "CHR ''/'' \<notin> set (safe_get_text (election_district p) '''') \<longrightarrow>
        map_of (site_data p) ''ED'' = Some (safe_get_text (election_district p) '''')"
    by (simp add: site_data_def split_first_all)
  have d1: "CHR ''/'' \<notin> set (safe_get_text_v1 (election_district p) '''') \<longrightarrow>
        map_of (site_data_v1 p) ''ED'' = Some (safe_get_text_v1 (election_district p) '''')"
    by (simp add: site_data_v1_def split_first_all)
  have ined: "(''ED'', split_first CHR ''/'' (safe_get_text (election_district p) '''')) \<in> set (site_data p)"
    by (simp add: site_data_def)
  have ined1: "(''ED'', split_first CHR ''/'' (safe_get_text_v1 (election_district p) '''')) \<in> set (site_data_v1 p)"
    by (simp add: site_data_v1_def)
  have e: "process_row house_col street_col zip_col index row (Loaded p) invalid_rows = (r, invalid_rows, updated)
        \<and> clean_house (row_get row house_col) \<noteq> []
        \<and> clean_street (row_get row street_col) \<noteq> []
        \<and> clean_zip (row_get row zip_col) \<noteq> []
        \<and> (f, v) \<in> set (site_data p)
      \<longrightarrow> ((f \<in> set updated \<and> r f = Some (CStr v))
             \<or> (f \<notin> set updated \<and> r f = row f \<and> strip (safe_text (row_get row f)) = v))
          \<and> CHR ''/'' \<notin> set (safe_text (row_get r ''ED''))"
  proof
    assume h: "process_row house_col street_col zip_col index row (Loaded p) invalid_rows = (r, invalid_rows, updated)
        \<and> clean_house (row_get row house_col) \<noteq> []
        \<and> clean_street (row_get row street_col) \<noteq> []
        \<and> clean_zip (row_get row zip_col) \<noteq> []
        \<and> (f, v) \<in> set (site_data p)"
    then have "update_fields (site_data p) row row = (r, updated)"
      using process_row_compared[of house_col street_col zip_col index row p invalid_rows r updated]
      by blast
    then have "(r, updated) = (write_all (filter (mismatch row) (site_data p)) row,
        map fst (filter (mismatch row) (site_data p)))"
      by (simp only: update_fields_eq)
    then have r: "r = write_all (filter (mismatch row) (site_data p)) row"
      and u: "updated = map fst (filter (mismatch row) (site_data p))"
      by (simp_all only: prod.inject)
    have field: "(f' \<in> set updated \<and> r f' = Some (CStr v'))
        \<or> (f' \<notin> set updated \<and> r f' = row f' \<and> strip (safe_text (row_get row f')) = v')"
      if "(f', v') \<in> set (site_data p)" for f' v'
      using compared_field[OF distinct_site_data(1) that r u]
      by (cases "mismatch row (f', v')") (simp_all add: mismatch_def)
    let ?w = "split_first CHR ''/'' (safe_get_text (election_district p) '''')"
    have ns: "CHR ''/'' \<notin> set ?w" by (rule split_first_no_sep)
    have "CHR ''/'' \<notin> set (safe_text (row_get r ''ED''))"
    proof (cases "''ED'' \<in> set updated")
      case True
      with field[OF ined] have "r ''ED'' = Some (CStr ?w)" by blast
      with ns show ?thesis by (simp add: row_get_def)
    next
      case False
      with field[OF ined] have k: "r ''ED'' = row ''ED''"
        and m: "strip (safe_text (row_get row ''ED'')) = ?w" by blast+
      from k have g: "row_get r ''ED'' = row_get row ''ED''" by (simp add: row_get_def)
      show ?thesis
      proof
        assume "CHR ''/'' \<in> set (safe_text (row_get r ''ED''))"
        then have "CHR ''/'' \<in> set (safe_text (row_get row ''ED''))" by (simp only: g)
        then have "CHR ''/'' \<in> set (strip (safe_text (row_get row ''ED'')))"
          using slash_not_space by (rule strip_keeps)
        with m ns show False by simp
      qed
    qed
    moreover from h have "(f, v) \<in> set (site_data p)" by blast
    ultimately show "((f \<in> set updated \<and> r f = Some (CStr v))
             \<or> (f \<notin> set updated \<and> r f = row f \<and> strip (safe_text (row_get row f)) = v))
          \<and> CHR ''/'' \<notin> set (safe_text (row_get r ''ED''))"
      using field by blast
  qed
  have g: "process_row_v1 index row (Loaded p) invalid_rows vs = Inr (r1, invalid_rows, updated1, vs1)
        \<and> row ''HOUSE #'' = Some hc \<and> row ''STREET NAME'' = Some sc \<and> row ''ZIP CODE'' = Some zc
        \<and> strip (py_str hc) \<noteq> [] \<and> strip (py_str sc) \<noteq> [] \<and> strip (py_str zc) \<noteq> []
        \<and> (f, v) \<in> set (site_data_v1 p)
      \<longrightarrow> ((f \<in> set updated1 \<and> r1 f = Some (CStr v))
             \<or> (f \<notin> set updated1 \<and> r1 f = row f
                \<and> (\<exists>c. row f = Some c
                       \<and> (if \<not> isna c then zfill (length v) (py_str c) else '''') = v)))
          \<and> (\<exists>c. r1 ''ED'' = Some c \<and> CHR ''/'' \<notin> set (py_str c))"
  proof
    assume h: "process_row_v1 index row (Loaded p) invalid_rows vs = Inr (r1, invalid_rows, updated1, vs1)
        \<and> row ''HOUSE #'' = Some hc \<and> row ''STREET NAME'' = Some sc \<and> row ''ZIP CODE'' = Some zc
        \<and> strip (py_str hc) \<noteq> [] \<and> strip (py_str sc) \<noteq> [] \<and> strip (py_str zc) \<noteq> []
        \<and> (f, v) \<in> set (site_data_v1 p)"
    then have "update_fields_v1 (site_data_v1 p) row row = Inr (r1, updated1)"
      using process_row_v1_compared[of index row p invalid_rows vs r1 updated1 vs1 hc sc zc]
      by blast
    from update_fields_v1_Inr[OF this]
    have present: "\<forall>fv\<in>set (site_data_v1 p). row (fst fv) \<noteq> None"
      and r: "r1 = write_all (filter (mismatch_v1 row) (site_data_v1 p)) row"
      and u: "updated1 = map fst (filter (mismatch_v1 row) (site_data_v1 p))"
      by blast+
    have field: "(f' \<in> set updated1 \<and> r1 f' = Some (CStr v'))
        \<or> (f' \<notin> set updated1 \<and> r1 f' = row f'
           \<and> (\<exists>c. row f' = Some c \<and> (if \<not> isna c then zfill (length v') (py_str c) else '''') = v'))"
      if m: "(f', v') \<in> set (site_data_v1 p)" for f' v'
    proof (cases "mismatch_v1 row (f', v')")
      case True
      with compared_field[OF distinct_site_data(2) m r u] show ?thesis by blast
    next
      case False
      from present m obtain c where c: "row f' = Some c" by force
      with False have "(if \<not> isna c then zfill (length v') (py_str c) else '''') = v'"
        by (auto simp: mismatch_v1_def split: if_splits)
      with c False compared_field[OF distinct_site_data(2) m r u]
      show ?thesis by blast
    qed
    let ?w = "split_first CHR ''/'' (safe_get_text_v1 (election_district p) '''')"
    have ns: "CHR ''/'' \<notin> set ?w" by (rule split_first_no_sep)
    have "\<exists>c. r1 ''ED'' = Some c \<and> CHR ''/'' \<notin> set (py_str c)"
    proof (cases "''ED'' \<in> set updated1")
      case True
      with field[OF ined1] have "r1 ''ED'' = Some (CStr ?w)" by blast
      with ns show ?thesis by simp
    next
      case False
      with field[OF ined1] obtain c where k: "r1 ''ED'' = row ''ED''" and c: "row ''ED'' = Some c"
        and m: "(if \<not> isna c then zfill (length ?w) (py_str c) else '''') = ?w" by blast
      have "CHR ''/'' \<notin> set (py_str c)"
      proof (cases "isna c")
        case True then show ?thesis by (rule isna_no_slash)
      next
        case na: False
        with m have z: "zfill (length ?w) (py_str c) = ?w" by simp
        show ?thesis
        proof
          assume "CHR ''/'' \<in> set (py_str c)"
          then have "CHR ''/'' \<in> set (zfill (length ?w) (py_str c))" by (rule zfill_keeps)
          with z ns show False by simp
        qed
      qed
      with k c show ?thesis by simp
    qed
    moreover from h have "(f, v) \<in> set (site_data_v1 p)" by blast
    ultimately show "((f \<in> set updated1 \<and> r1 f = Some (CStr v))
             \<or> (f \<notin> set updated1 \<and> r1 f = row f
                \<and> (\<exists>c. row f = Some c
                       \<and> (if \<not> isna c then zfill (length v) (py_str c) else '''') = v)))
          \<and> (\<exists>c. r1 ''ED'' = Some c \<and> CHR ''/'' \<notin> set (py_str c))"
      using field by blast
  qed
  from a b c d d1 e g show ?thesis by (intro conjI)
qed

text \<open>
  The election district \<open>012/03\<close>: the cell \<open> 012 \<close> is left alone by script2.py and
  the cell \<open>13\<close> is overwritten with \<open>012\<close>; the cell \<open>12\<close> is left alone by script.py.
  The scraped text \<open> 012 \<close> without slash is kept whole.
\<close>

theorem district_columns_after_comparison_witness:
  "fst (process_row ''HOUSE #'' ''STREET NAME'' ''ZIP CODE'' 0 sheet_row_blanks (Loaded result_page) [])
       ''ED'' = Some (CStr '' 012 '')
   \<and> strip (safe_text (row_get sheet_row_blanks ''ED'')) = ''012''
   \<and> fst (process_row ''HOUSE #'' ''STREET NAME'' ''ZIP CODE'' 0 sheet_row (Loaded result_page) [])
       ''ED'' = Some (CStr ''012'')
   \<and> fst (projr (process_row_v1 0 sheet_row_short (Loaded result_page) [] unbound)) ''ED''
       = Some (CStr ''12'')
   \<and> map_of (site_data plain_page) ''ED'' = Some ''012''
   \<and> map_of (site_data_v1 plain_page) ''ED'' = Some ''012''"
proof -
  let ?b = "process_row ''HOUSE #'' ''STREET NAME'' ''ZIP CODE'' 0 sheet_row_blanks (Loaded result_page) []"
  let ?w = "process_row ''HOUSE #'' ''STREET NAME'' ''ZIP CODE'' 0 sheet_row (Loaded result_page) []"
  let ?s = "process_row_v1 0 sheet_row_short (Loaded result_page) [] unbound"
  have ined: "(''ED'', ''012'') \<in> set (site_data result_page)"
    "(''ED'', ''012'') \<in> set (site_data_v1 result_page)" by code_simp+
  have hb: "clean_house (row_get sheet_row_blanks ''HOUSE #'') \<noteq> []"
    "clean_street (row_get sheet_row_blanks ''STREET NAME'') \<noteq> []"
    "clean_zip (row_get sheet_row_blanks ''ZIP CODE'') \<noteq> []" by code_simp+
  have hw: "clean_house (row_get sheet_row ''HOUSE #'') \<noteq> []"
    "clean_street (row_get sheet_row ''STREET NAME'') \<noteq> []"
    "clean_zip (row_get sheet_row ''ZIP CODE'') \<noteq> []" by code_simp+
  have ib: "fst (snd ?b) = []" by code_simp
  then have eb: "?b = (fst ?b, [], snd (snd ?b))" by (metis prod.collapse)
  have ub: "''ED'' \<notin> set (snd (snd ?b))" by code_simp
  have cell: "sheet_row_blanks ''ED'' = Some (CStr '' 012 '')" by (simp add: sheet_row_blanks_def)
  note c6b = district_columns_after_comparison[where p = result_page and house_col = "''HOUSE #''"
      and street_col = "''STREET NAME''" and zip_col = "''ZIP CODE''" and index = 0
      and row = sheet_row_blanks and invalid_rows = "[]" and r = "fst ?b" and updated = "snd (snd ?b)"
      and f = "''ED''" and v = "''012''",
      THEN conjunct2, THEN conjunct2, THEN conjunct2, THEN conjunct2, THEN conjunct2, THEN conjunct1]
  from c6b[rule_format, OF conjI[OF eb conjI[OF hb(1) conjI[OF hb(2) conjI[OF hb(3) ined(1)]]]]] ub
  have 1: "fst ?b ''ED'' = sheet_row_blanks ''ED''"
    and 2: "strip (safe_text (row_get sheet_row_blanks ''ED'')) = ''012''"
    by blast+
  have iw: "fst (snd ?w) = []" by code_simp
  then have ew: "?w = (fst ?w, [], snd (snd ?w))" by (metis prod.collapse)
  have uw: "''ED'' \<in> set (snd (snd ?w))" by code_simp
  note c6w = district_columns_after_comparison[where p = result_page and house_col = "''HOUSE #''"
      and street_col = "''STREET NAME''" and zip_col = "''ZIP CODE''" and index = 0
      and row = sheet_row and invalid_rows = "[]" and r = "fst ?w" and updated = "snd (snd ?w)"
      and f = "''ED''" and v = "''012''",
      THEN conjunct2, THEN conjunct2, THEN conjunct2, THEN conjunct2, THEN conjunct2, THEN conjunct1]
  from c6w[rule_format, OF conjI[OF ew conjI[OF hw(1) conjI[OF hw(2) conjI[OF hw(3) ined(1)]]]]] uw
  have 3: "fst ?w ''ED'' = Some (CStr ''012'')" by blast
  have cols: "sheet_row_short ''HOUSE #'' = Some (CStr ''1876.0'')"
    "sheet_row_short ''STREET NAME'' = Some (CStr ''19th  ave'')"
    "sheet_row_short ''ZIP CODE'' = Some (CStr ''1120'')"
    by (simp_all add: sheet_row_short_def)
  have t: "strip (py_str (CStr ''1876.0'')) \<noteq> []" "strip (py_str (CStr ''19th  ave'')) \<noteq> []"
    "strip (py_str (CStr ''1120'')) \<noteq> []" by code_simp+
  have isr: "\<not> isl ?s" by code_simp
  have is1: "fst (snd (projr ?s)) = []" by code_simp
  from isr have "?s = Inr (projr ?s)" by (cases ?s) simp_all
  also have "projr ?s = (fst (projr ?s), [], fst (snd (snd (projr ?s))), snd (snd (snd (projr ?s))))"
    using is1 by (metis prod.collapse)
  finally have es: "?s = Inr (fst (projr ?s), [], fst (snd (snd (projr ?s))), snd (snd (snd (projr ?s))))" .
  have us: "''ED'' \<notin> set (fst (snd (snd (projr ?s))))" by code_simp
  have cell1: "sheet_row_short ''ED'' = Some (CStr ''12'')" by (simp add: sheet_row_short_def)
  note c7 = district_columns_after_comparison[where p = result_page and index = 0
      and row = sheet_row_short and invalid_rows = "[]" and vs = unbound and ?r1.0 = "fst (projr ?s)"
      and ?updated1.0 = "fst (snd (snd (projr ?s)))" and ?vs1.0 = "snd (snd (snd (projr ?s)))"
      and hc = "CStr ''1876.0''" and sc = "CStr ''19th  ave''" and zc = "CStr ''1120''"
      and f = "''ED''" and v = "''012''",
      THEN conjunct2, THEN conjunct2, THEN conjunct2, THEN conjunct2, THEN conjunct2, THEN conjunct2]
  from c7[rule_format, OF conjI[OF es conjI[OF cols(1) conjI[OF cols(2) conjI[OF cols(3)
      conjI[OF t(1) conjI[OF t(2) conjI[OF t(3) ined(2)]]]]]]]] us
  have 4: "fst (projr ?s) ''ED'' = sheet_row_short ''ED''" by blast
  have tx: "safe_get_text (election_district plain_page) '''' = ''012''"
    "safe_get_text_v1 (election_district plain_page) '''' = ''012''" by code_simp+
  have n: "CHR ''/'' \<notin> set ''012''" by simp
  note c4 = district_columns_after_comparison[where p = plain_page,
      THEN conjunct2, THEN conjunct2, THEN conjunct2, THEN conjunct1]
  note c5 = district_columns_after_comparison[where p = plain_page,
      THEN conjunct2, THEN conjunct2, THEN conjunct2, THEN conjunct2, THEN conjunct1]
  from c4 tx(1) n have 5: "map_of (site_data plain_page) ''ED'' = Some ''012''" by simp
  from c5 tx(2) n have 6: "map_of (site_data_v1 plain_page) ''ED'' = Some ''012''" by simp
  from 1 cell 2 3 4 cell1 5 6 show ?thesis by simp
qed

text \<open>
  C2 on the first script. On a table that has the column \<open>AD\<close> but not \<open>ED\<close>,
  script.py writes \<open>AD\<close> and then fails on \<open>row["ED"]\<close>; the handler records the
  row in \<open>invalid_rows\<close>. The row is both written and recorded. script2.py creates
  the missing columns and reads with \<open>row.get\<close>: on the same row it writes the six
  fields and records nothing (and \<open>process_row_outcomes\<close> above holds for all its rows).
\<close>

theorem script_v1_row_written_and_recorded:
  "(case process_row_v1 0 sheet_row_no_ed (Loaded result_page) [] unbound of
      Inl e \<Rightarrow> False
    | Inr (r, invalid_rows', updated, vs) \<Rightarrow>
        sheet_row_no_ed ''AD'' = Some (CStr ''1'')
        \<and> r ''AD'' = Some (CStr ''65'')
        \<and> updated = [''AD'']
        \<and> invalid_rows' =
            [\<lparr>ir_row = 0, ir_house = ''1'', ir_street = ''Main St'', ir_zip = ''11204'',
              ir_reason = ''Script error: '' @ key_error ''ED''\<rparr>])
   \<and> (case process_row ''HOUSE #'' ''STREET NAME'' ''ZIP CODE'' 0 sheet_row_no_ed (Loaded result_page) [] of
        (r, invalid_rows', updated) \<Rightarrow>
          r ''AD'' = Some (CStr ''65'') \<and> r ''ED'' = Some (CStr ''012'')
          \<and> updated = [''AD'', ''ED'', ''Cong D'', ''SD'', ''Council D'', ''JD'']
          \<and> invalid_rows' = [])"
  by code_simp

text \<open>
  C8. On a file system with finitely many files the loop ends, and the path chosen is the
  base name with the suffix when that file does not exist, and otherwise the first of the
  numbered names (1), (2), ... that does not exist; so with the unnumbered name taken and
  (1) free the answer is the (1) name, and the answer is never an existing file.
\<close>

theorem output_path_first_free_name:
  assumes "finite {p. exists p}"
  shows "\<exists>p. output_path exists base_name suffix = Some p
           \<and> \<not> exists p
           \<and> (\<not> exists (first_path base_name suffix) \<longrightarrow> p = first_path base_name suffix)
           \<and> (exists (first_path base_name suffix) \<longrightarrow>
                (\<exists>k\<ge>1. p = numbered_path base_name suffix k
                   \<and> (\<forall>j. 1 \<le> j \<and> j < k \<longrightarrow> exists (numbered_path base_name suffix j))))
           \<and> (exists (first_path base_name suffix) \<and> \<not> exists (numbered_path base_name suffix 1) \<longrightarrow>
                p = numbered_path base_name suffix 1)"
proof (cases "exists (first_path base_name suffix)")
  case False
  then have "output_path exists base_name suffix = Some (first_path base_name suffix)"
    unfolding output_path_def by (subst free_path.simps) simp
  with False show ?thesis by simp
next
  case True
  let ?P = "\<lambda>k. 1 \<le> k \<and> \<not> exists (numbered_path base_name suffix k)"
  from some_number_free[OF assms, of 1 base_name suffix] have ex: "\<exists>k. ?P k" by blast
  define k where "k = (LEAST k. ?P k)"
  have k: "?P k" unfolding k_def using ex by (rule LeastI_ex)
  have least: "exists (numbered_path base_name suffix j)" if "1 \<le> j" "j < k" for j
  proof (rule ccontr)
    assume "\<not> exists (numbered_path base_name suffix j)"
    with that(1) have "?P j" by simp
    then have "k \<le> j" unfolding k_def by (rule Least_le)
    with that(2) show False by simp
  qed
  have r: "output_path exists base_name suffix = Some (numbered_path base_name suffix k)"
    unfolding output_path_def using k least True by (intro free_path_reaches) auto
  have one: "k = 1" if "\<not> exists (numbered_path base_name suffix 1)"
  proof (rule ccontr)
    assume "k \<noteq> 1"
    with k have "1 < k" by simp
    with least[of 1] that show False by simp
  qed
  show ?thesis
  proof (rule exI[of _ "numbered_path base_name suffix k"], intro conjI impI)
    show "output_path exists base_name suffix = Some (numbered_path base_name suffix k)" by (rule r)
    show "\<not> exists (numbered_path base_name suffix k)" using k by blast
    show "numbered_path base_name suffix k = first_path base_name suffix"
      if "\<not> exists (first_path base_name suffix)" using that True by blast
    show "\<exists>k'\<ge>1. numbered_path base_name suffix k = numbered_path base_name suffix k'
           \<and> (\<forall>j. 1 \<le> j \<and> j < k' \<longrightarrow> exists (numbered_path base_name suffix j))"
      using k least by blast
    show "numbered_path base_name suffix k = numbered_path base_name suffix 1"
      if "exists (first_path base_name suffix) \<and> \<not> exists (numbered_path base_name suffix 1)"
      using that one by simp
  qed
qed

text \<open>
  The names \<open>in_with_districts.xlsx\<close> (script2.py) and \<open>in_corrected.xlsx\<close> (script.py)
  taken: the (1) names are chosen; nothing taken: the unnumbered name is.
\<close>

theorem output_path_first_free_name_witness:
  "finite {p. p \<in> set [''in_with_districts.xlsx'']}
   \<and> output_path (\<lambda>p. p \<in> set [''in_with_districts.xlsx'']) ''in'' script2_suffix
         = Some ''in_with_districts(1).xlsx''
   \<and> output_path (\<lambda>p. p \<in> set [''in_corrected.xlsx'']) ''in'' script_suffix
         = Some ''in_corrected(1).xlsx''
   \<and> output_path (\<lambda>p. p \<in> set [''other.xlsx'']) ''in'' script2_suffix
         = Some ''in_with_districts.xlsx''"
proof -
  let ?E = "\<lambda>p. p \<in> set [''in_with_districts.xlsx'']"
  let ?F = "\<lambda>p. p \<in> set [''in_corrected.xlsx'']"
  let ?G = "\<lambda>p. p \<in> set [''other.xlsx'']"
  have fin: "finite {p. ?E p}" "finite {p. ?F p}" "finite {p. ?G p}" by simp_all
  have n0: "first_path ''in'' script2_suffix = ''in_with_districts.xlsx''"
    by (simp add: first_path_def script2_suffix_def)
  have n1: "numbered_path ''in'' script2_suffix 1 = ''in_with_districts(1).xlsx''"
    by (simp add: numbered_path_def script2_suffix_def str_nat_1_2)
  have m0: "first_path ''in'' script_suffix = ''in_corrected.xlsx''"
    by (simp add: first_path_def script_suffix_def)
  have m1: "numbered_path ''in'' script_suffix 1 = ''in_corrected(1).xlsx''"
    by (simp add: numbered_path_def script_suffix_def str_nat_1_2)
  have a: "?E (first_path ''in'' script2_suffix)" "\<not> ?E (numbered_path ''in'' script2_suffix 1)"
    unfolding n0 n1 by simp_all
  have b: "?F (first_path ''in'' script_suffix)" "\<not> ?F (numbered_path ''in'' script_suffix 1)"
    unfolding m0 m1 by simp_all
  have c: "\<not> ?G (first_path ''in'' script2_suffix)" unfolding n0 by simp
  from output_path_first_free_name[OF fin(1), of "''in''" script2_suffix]
  obtain p where p: "output_path ?E ''in'' script2_suffix = Some p"
    and "?E (first_path ''in'' script2_suffix) \<and> \<not> ?E (numbered_path ''in'' script2_suffix 1) \<longrightarrow>
           p = numbered_path ''in'' script2_suffix 1"
    by blast
  with a have "p = ''in_with_districts(1).xlsx''" unfolding n1 by blast
  with p have 1: "output_path ?E ''in'' script2_suffix = Some ''in_with_districts(1).xlsx''" by simp
  from output_path_first_free_name[OF fin(2), of "''in''" script_suffix]
  obtain q where q: "output_path ?F ''in'' script_suffix = Some q"
    and "?F (first_path ''in'' script_suffix) \<and> \<not> ?F (numbered_path ''in'' script_suffix 1) \<longrightarrow>
           q = numbered_path ''in'' script_suffix 1"
    by blast
  with b have "q = ''in_corrected(1).xlsx''" unfolding m1 by blast
  with q have 2: "output_path ?F ''in'' script_suffix = Some ''in_corrected(1).xlsx''" by simp
  from output_path_first_free_name[OF fin(3), of "''in''" script2_suffix]
  obtain r where r: "output_path ?G ''in'' script2_suffix = Some r"
    and "\<not> ?G (first_path ''in'' script2_suffix) \<longrightarrow> r = first_path ''in'' script2_suffix"
    by blast
  with c have "r = ''in_with_districts.xlsx''" unfolding n0 by blast
  with r have 3: "output_path ?G ''in'' script2_suffix = Some ''in_with_districts.xlsx''" by simp
  from fin(1) 1 2 3 show ?thesis by (intro conjI)
qed

end
